theory Spec2Isabelle
  imports Complex_Main "HOL-Library.Log_Nat"
begin

section \<open>JavaScript strings\<close>

text \<open>
  A JavaScript string is a sequence of UTF-16 code units.  A code unit is modelled as a
  natural number, so that cell texts outside ASCII (a dash, a no-break space) are ordinary
  inputs.  \<open>ascii\<close> turns an ASCII literal into such a string.
\<close>

type_synonym code_unit = nat
type_synonym jsstring = "code_unit list"

definition ascii :: "string \<Rightarrow> jsstring" where
  "ascii s = map of_char s"

text \<open>
  The white space of ECMAScript (WhiteSpace and LineTerminator): what \<open>\s\<close> matches in a
  regular expression without the unicode flag, and what \<open>String.prototype.trim\<close> and
  \<open>parseFloat\<close> strip.
\<close>

definition isWhiteSpace :: "code_unit \<Rightarrow> bool" where
  "isWhiteSpace c \<longleftrightarrow>
     c = 9 \<or> c = 10 \<or> c = 11 \<or> c = 12 \<or> c = 13 \<or> c = 32 \<or> c = 160 \<or> c = 5760 \<or>
     (8192 \<le> c \<and> c \<le> 8202) \<or> c = 8232 \<or> c = 8233 \<or> c = 8239 \<or> c = 8287 \<or>
     c = 12288 \<or> c = 65279"

text \<open>\<open>\d\<close>: the ten ASCII digits.\<close>

definition isDigit :: "code_unit \<Rightarrow> bool" where
  "isDigit c \<longleftrightarrow> of_char CHR ''0'' \<le> c \<and> c \<le> of_char CHR ''9''"

text \<open>\<open>String.prototype.trim\<close>.\<close>

definition trim :: "jsstring \<Rightarrow> jsstring" where
  "trim s = rev (dropWhile isWhiteSpace (rev (dropWhile isWhiteSpace s)))"

text \<open>
  \<open>s.replace(p, r)\<close> for a pattern and a replacement of one code unit each: only the first
  occurrence is replaced.
\<close>

fun replace :: "jsstring \<Rightarrow> code_unit \<Rightarrow> code_unit \<Rightarrow> jsstring" where
  "replace [] p r = []"
| "replace (x # xs) p r = (if x = p then r # xs else x # replace xs p r)"

text \<open>The number a string of decimal digits denotes.\<close>

definition digits_value :: "jsstring \<Rightarrow> int" where
  "digits_value ds = foldl (\<lambda>n c. 10 * n + (int c - int (of_char CHR ''0''))) 0 ds"

section \<open>JavaScript numbers\<close>

text \<open>
  A Number is an IEEE 754 binary64 value: a finite value (kept as the rational it denotes),
  one of the two infinities, or NaN.  The sign of zero is not kept.  Every arithmetic
  result is rounded to the nearest binary64 value, ties to even, by \<open>round_double\<close>.
\<close>

datatype number = Finite rat | PosInfinity | NegInfinity | NaN

definition pow2 :: "int \<Rightarrow> rat" where
  "pow2 e = (if 0 \<le> e then 2 ^ nat e else 1 / 2 ^ nat (- e))"

definition pow10 :: "int \<Rightarrow> rat" where
  "pow10 e = (if 0 \<le> e then 10 ^ nat e else 1 / 10 ^ nat (- e))"

text \<open>\<open>ilog2 a\<close> is the exponent \<open>e\<close> with \<open>2^e \<le> a < 2^(e+1)\<close>, for positive \<open>a\<close>.\<close>

definition ilog2 :: "rat \<Rightarrow> int" where
  "ilog2 a = (case quotient_of a of (p, q) \<Rightarrow>
     (let d = bitlen p - bitlen q in if pow2 d \<le> a then d else d - 1))"

definition round_half_even :: "rat \<Rightarrow> int" where
  "round_half_even x =
     (let f = \<lfloor>x\<rfloor>; r = x - of_int f
      in if r < 1 / 2 then f else if 1 / 2 < r then f + 1 else if even f then f else f + 1)"

definition round_double :: "rat \<Rightarrow> number" where
  "round_double x =
     (if x = 0 then Finite 0
      else
        let a = \<bar>x\<bar>;
            e = max (ilog2 a) (- 1022);
            u = pow2 (e - 52);
            r = of_int (round_half_even (a / u)) * u
        in if pow2 1024 \<le> r then (if x < 0 then NegInfinity else PosInfinity)
           else Finite (if x < 0 then - r else r))"

fun number_mul :: "number \<Rightarrow> number \<Rightarrow> number" where
  "number_mul NaN y = NaN"
| "number_mul x NaN = NaN"
| "number_mul (Finite a) (Finite b) = round_double (a * b)"
| "number_mul (Finite a) y =
     (if a = 0 then NaN else if (a < 0) = (y = NegInfinity) then PosInfinity else NegInfinity)"
| "number_mul x (Finite b) =
     (if b = 0 then NaN else if (b < 0) = (x = NegInfinity) then PosInfinity else NegInfinity)"
| "number_mul x y = (if x = y then PosInfinity else NegInfinity)"

fun number_add :: "number \<Rightarrow> number \<Rightarrow> number" where
  "number_add NaN y = NaN"
| "number_add x NaN = NaN"
| "number_add (Finite a) (Finite b) = round_double (a + b)"
| "number_add (Finite a) y = y"
| "number_add x (Finite b) = x"
| "number_add x y = (if x = y then x else NaN)"

definition isNaN :: "number \<Rightarrow> bool" where
  "isNaN x \<longleftrightarrow> x = NaN"

text \<open>
  \<open>parseFloat\<close>: leading white space is skipped, then the longest prefix that is a
  StrDecimalLiteral (sign, \<open>Infinity\<close> or digits with an optional fraction and an optional
  exponent) is converted; NaN when there is no such prefix.  The conversion is taken to be
  correctly rounded, also for more than 20 significant digits.
\<close>

definition exponentPart :: "jsstring \<Rightarrow> int" where
  "exponentPart s =
     (case s of
        [] \<Rightarrow> 0
      | c # r \<Rightarrow>
          if c = of_char CHR ''e'' \<or> c = of_char CHR ''E'' then
            (case r of
               [] \<Rightarrow> 0
             | d # r' \<Rightarrow>
                 if d = of_char CHR ''-'' then - digits_value (takeWhile isDigit r')
                 else if d = of_char CHR ''+'' then digits_value (takeWhile isDigit r')
                 else digits_value (takeWhile isDigit r))
          else 0)"

definition unsignedDecimal :: "jsstring \<Rightarrow> number" where
  "unsignedDecimal u =
     (if take 8 u = ascii ''Infinity'' then PosInfinity
      else
        let ip = takeWhile isDigit u;
            r1 = dropWhile isDigit u;
            dot = (case r1 of [] \<Rightarrow> False | c # _ \<Rightarrow> c = of_char CHR ''.'');
            fp = (if dot then takeWhile isDigit (tl r1) else []);
            r2 = (if dot then dropWhile isDigit (tl r1) else r1)
        in if ip = [] \<and> fp = [] then NaN
           else round_double
                  (of_int (digits_value (ip @ fp)) * pow10 (exponentPart r2 - int (length fp))))"

definition negate :: "number \<Rightarrow> number" where
  "negate x = (case x of Finite a \<Rightarrow> Finite (- a) | PosInfinity \<Rightarrow> NegInfinity
     | NegInfinity \<Rightarrow> PosInfinity | NaN \<Rightarrow> NaN)"

definition parseFloat :: "jsstring \<Rightarrow> number" where
  "parseFloat string =
     (case dropWhile isWhiteSpace string of
        [] \<Rightarrow> NaN
      | c # r \<Rightarrow>
          if c = of_char CHR ''-'' then negate (unsignedDecimal r)
          else if c = of_char CHR ''+'' then unsignedDecimal r
          else unsignedDecimal (c # r))"

section \<open>Regular expressions\<close>

text \<open>
  The fragment of ECMAScript regular expressions that the two patterns of the program use:
  character classes, greedy \<open>*\<close> and \<open>+\<close> on a class, greedy \<open>?\<close>, sequence and
  capture groups.  Matching is by backtracking; \<open>run r (caps, s)\<close> lists, in the order in
  which backtracking tries them, the ways \<open>r\<close> can match a prefix of \<open>s\<close>: the captures
  after the match and the rest of the input.
\<close>

datatype cclass = Digit | Space | Lit char | OneOf string

fun in_class :: "cclass \<Rightarrow> code_unit \<Rightarrow> bool" where
  "in_class Digit c = isDigit c"
| "in_class Space c = isWhiteSpace c"
| "in_class (Lit l) c = (c = of_char l)"
| "in_class (OneOf ls) c = (c \<in> set (ascii ls))"

datatype regex =
    Atom cclass
  | Star cclass
  | Plus cclass
  | Opt regex
  | Seq regex regex
  | Group nat regex

type_synonym captures = "nat \<Rightarrow> jsstring option"

text \<open>Greedy repetition of a class: the longest run first, then each shorter one.\<close>

fun star :: "cclass \<Rightarrow> jsstring \<Rightarrow> jsstring list" where
  "star c [] = [[]]"
| "star c (x # xs) = (if in_class c x then star c xs @ [x # xs] else [x # xs])"

fun run :: "regex \<Rightarrow> captures \<times> jsstring \<Rightarrow> (captures \<times> jsstring) list" where
  "run (Atom c) (caps, s) =
     (case s of [] \<Rightarrow> [] | x # xs \<Rightarrow> if in_class c x then [(caps, xs)] else [])"
| "run (Star c) (caps, s) = map (Pair caps) (star c s)"
| "run (Plus c) (caps, s) =
     (case s of [] \<Rightarrow> [] | x # xs \<Rightarrow> if in_class c x then map (Pair caps) (star c xs) else [])"
| "run (Opt r) st = run r st @ [st]"
| "run (Seq a b) st = concat (map (run b) (run a st))"
| "run (Group i r) (caps, s) =
     map (\<lambda>(caps', s'). (caps'(i \<mapsto> take (length s - length s') s), s')) (run r (caps, s))"

text \<open>
  \<open>string.match(regex)\<close> for a regular expression without the global flag: the first
  match at the leftmost position that has one; \<open>None\<close> is \<open>null\<close>.  The result gives the
  capture groups (\<open>None\<close> is \<open>undefined\<close>).
\<close>

fun match :: "jsstring \<Rightarrow> regex \<Rightarrow> captures option" where
  "match [] r =
     (case run r (Map.empty, []) of
        [] \<Rightarrow> None
      | (caps, rest) # others \<Rightarrow> Some caps)"
| "match (x # xs) r =
     (case run r (Map.empty, x # xs) of
        [] \<Rightarrow> match xs r
      | (caps, rest) # others \<Rightarrow> Some caps)"

section \<open>WikipediaInspector\<close>

text \<open>
  The class of \<^verbatim>\<open>src/services/WikipediaInspector.ts\<close>.  The body of the loop of
  \<open>extractColumnData\<close> is split into \<open>metricBranch\<close>, \<open>imperialBranch\<close> and
  \<open>parseCell\<close>, the loop itself is \<open>scanRows\<close>, and the \<open>forEach\<close> of \<open>getColumns\<close> is
  \<open>forEachTable\<close>; every other name is the program's.
\<close>

text \<open>\<^verbatim>\<open>const METRES_REGEX = /(\d+[.,]?\d*)\s*m/;\<close>\<close>

definition METRES_REGEX :: regex where
  "METRES_REGEX =
     Seq (Group 1 (Seq (Plus Digit) (Seq (Opt (Atom (OneOf ''.,''))) (Star Digit))))
       (Seq (Star Space) (Atom (Lit CHR ''m'')))"

text \<open>\<^verbatim>\<open>const FEET_REGEX = /(\d+)\s*ft\s*(\d+)?\s*in/;\<close>\<close>

definition FEET_REGEX :: regex where
  "FEET_REGEX =
     Seq (Group 1 (Plus Digit))
       (Seq (Star Space)
         (Seq (Atom (Lit CHR ''f''))
           (Seq (Atom (Lit CHR ''t''))
             (Seq (Star Space)
               (Seq (Opt (Group 2 (Plus Digit)))
                 (Seq (Star Space)
                   (Seq (Atom (Lit CHR ''i'')) (Atom (Lit CHR ''n'')))))))))"

record ColumnData =
  header :: jsstring
  "values" :: "number list"

text \<open>
  A thrown value: an \<open>Error\<close> with its message, or something that is not an \<open>Error\<close>.
\<close>

datatype exn = Error jsstring | NonError

text \<open>
  The \<open>TypeError\<close> of a method call on \<open>undefined\<close>; the message is the engine's.
\<close>

definition TypeError :: exn where
  "TypeError = Error (ascii ''Cannot read properties of undefined'')"

text \<open>
  A table element is read through \<open>querySelectorAll("tr")\<close> and, in each row,
  \<open>querySelectorAll("td")\<close> and \<open>textContent\<close>: it is the list of its \<open>tr\<close> elements in
  document order, a row the list of the text contents of its \<open>td\<close> elements.  A row of
  \<open>th\<close> cells only is a row with no cell.
\<close>

type_synonym row = "jsstring list"
type_synonym table = "row list"

text \<open>
  The metric branch of the loop body (lines 97 to 100): the value pushed, if any.
  \<open>meterValue[1].replace\<close> throws when the group is \<open>undefined\<close>.
\<close>

definition metricBranch :: "captures \<Rightarrow> exn + number option" where
  "metricBranch meterValue =
     (case meterValue 1 of
        None \<Rightarrow> Inl TypeError
      | Some g \<Rightarrow>
          (let numValue = parseFloat (replace g (of_char CHR '','') (of_char CHR ''.''))
           in if \<not> isNaN numValue then Inr (Some numValue) else Inr None))"

text \<open>
  The imperial branch (lines 105 to 108).  \<open>parseFloat(undefined)\<close> converts its argument
  to the string \<open>"undefined"\<close>; an \<open>undefined\<close> or empty second group is falsy.
\<close>

definition imperialBranch :: "captures \<Rightarrow> number" where
  "imperialBranch feetValue =
     (let feet = parseFloat (case feetValue 1 of None \<Rightarrow> ascii ''undefined'' | Some g \<Rightarrow> g);
          inches = (case feetValue 2 of
                      None \<Rightarrow> Finite 0
                    | Some g \<Rightarrow> if g = [] then Finite 0 else parseFloat g)
      in number_add (number_mul feet (round_double (3048 / 10000)))
           (number_mul inches (round_double (254 / 10000))))"

text \<open>
  The handling of one cell value (lines 95 to 110): \<open>Inr (Some v)\<close> when \<open>v\<close> is pushed to
  the column, \<open>Inr None\<close> when nothing is pushed.
\<close>

definition parseCell :: "jsstring \<Rightarrow> exn + number option" where
  "parseCell value =
     (case match value METRES_REGEX of
        Some meterValue \<Rightarrow> metricBranch meterValue
      | None \<Rightarrow>
          (case match value FEET_REGEX of
             Some feetValue \<Rightarrow> Inr (Some (imperialBranch feetValue))
           | None \<Rightarrow> Inr None))"

text \<open>
  The loop over the rows from index 1 on (lines 88 to 112), as a recursion over the rows
  that are left, with the values pushed so far.
\<close>

fun scanRows :: "row list \<Rightarrow> number list \<Rightarrow> exn + number list" where
  "scanRows [] vals = Inr vals"
| "scanRows (cells # rows) vals =
     (case cells of
        [] \<Rightarrow> scanRows rows vals
      | markCell # others \<Rightarrow>
          (case parseCell (trim markCell) of
             Inl e \<Rightarrow> Inl e
           | Inr None \<Rightarrow> scanRows rows vals
           | Inr (Some v) \<Rightarrow> scanRows rows (vals @ [v])))"

definition extractColumnData :: "table \<Rightarrow> exn + ColumnData list" where
  "extractColumnData rows =
     (case scanRows (drop 1 rows) [] of
        Inl e \<Rightarrow> Inl e
      | Inr vals \<Rightarrow>
          Inr (if length vals > 0 then [\<lparr>header = ascii ''Height'', values = vals\<rparr>] else []))"

text \<open>
  What the request for the page gives \<open>getTables\<close>: the fetch or the parsing throws, the
  response has no \<open>parse.text\<close>, or the document is parsed and has these
  \<open>table.wikitable\<close> elements.
\<close>

datatype page = Throws exn | NoText | Document "table list"

definition rethrow :: "string \<Rightarrow> exn \<Rightarrow> exn" where
  "rethrow prefix e =
     Error (ascii prefix @ (case e of Error msg \<Rightarrow> msg | NonError \<Rightarrow> ascii ''Something went wrong''))"

definition getTables :: "page \<Rightarrow> exn + table list" where
  "getTables p =
     (case p of
        Throws e \<Rightarrow> Inl (rethrow ''Failed to get tables: '' e)
      | NoText \<Rightarrow>
          Inl (rethrow ''Failed to get tables: '' (Error (ascii ''Failed to fetch Wikipedia Content'')))
      | Document tables \<Rightarrow>
          if length tables = 0
          then Inl (rethrow ''Failed to get tables: '' (Error (ascii ''No table found'')))
          else Inr tables)"

text \<open>The \<open>forEach\<close> of \<open>getColumns\<close>, with the columns pushed so far.\<close>

fun forEachTable :: "table list \<Rightarrow> ColumnData list \<Rightarrow> exn + ColumnData list" where
  "forEachTable [] column = Inr column"
| "forEachTable (t # ts) column =
     (case extractColumnData t of
        Inl e \<Rightarrow> Inl e
      | Inr columnDatas \<Rightarrow> forEachTable ts (column @ columnDatas))"

definition getColumns :: "page \<Rightarrow> exn + ColumnData list" where
  "getColumns p =
     (case getTables p of
        Inl e \<Rightarrow> Inl e
      | Inr tables \<Rightarrow> forEachTable tables [])"

text \<open>
  \<open>generateChart\<close> as at lines 145 to 159: it returns when there is a column to chart.
  (A later revision of the file draws and saves the chart on this path; the check for no
  column and the two rethrown messages are the same.)
\<close>

definition generateChart :: "page \<Rightarrow> exn + unit" where
  "generateChart p =
     (case getColumns p of
        Inl e \<Rightarrow> Inl (rethrow ''Failed to generate chart: '' e)
      | Inr columns \<Rightarrow>
          if length columns = 0
          then Inl (rethrow ''Failed to generate chart: ''
                      (Error (ascii ''No numeric columns found in the tables'')))
          else Inr ())"

section \<open>Notions used in the statements\<close>

text \<open>
  The strings a pattern can match, whatever the order in which backtracking finds them, and
  the strings a group with index \<open>i\<close> inside a pattern can capture.
\<close>

fun lang :: "regex \<Rightarrow> jsstring set" where
  "lang (Atom c) = {p. \<exists>x. p = [x] \<and> in_class c x}"
| "lang (Star c) = {p. list_all (in_class c) p}"
| "lang (Plus c) = {p. p \<noteq> [] \<and> list_all (in_class c) p}"
| "lang (Opt r) = insert [] (lang r)"
| "lang (Seq a b) = {p. \<exists>u v. p = u @ v \<and> u \<in> lang a \<and> v \<in> lang b}"
| "lang (Group i r) = lang r"

fun group_lang :: "regex \<Rightarrow> nat \<Rightarrow> jsstring set" where
  "group_lang (Atom c) i = {}"
| "group_lang (Star c) i = {}"
| "group_lang (Plus c) i = {}"
| "group_lang (Opt r) i = group_lang r i"
| "group_lang (Seq a b) i = group_lang a i \<union> group_lang b i"
| "group_lang (Group j r) i = (if i = j then lang r else {}) \<union> group_lang r i"

text \<open>A number that is finite and not negative, or positive infinity.\<close>

definition nonneg_or_inf :: "number \<Rightarrow> bool" where
  "nonneg_or_inf v = (case v of Finite r \<Rightarrow> 0 \<le> r | PosInfinity \<Rightarrow> True | NegInfinity \<Rightarrow> False | NaN \<Rightarrow> False)"

definition finite_nonneg :: "number \<Rightarrow> bool" where
  "finite_nonneg v = (case v of Finite r \<Rightarrow> 0 \<le> r | PosInfinity \<Rightarrow> False | NegInfinity \<Rightarrow> False | NaN \<Rightarrow> False)"

text \<open>
  The least number that rounds to infinity: the largest finite binary64 number plus half a
  unit in its last place, about \<open>1.797e308\<close>.
\<close>

definition overflow_threshold :: rat where
  "overflow_threshold = pow2 1024 - pow2 970"

text \<open>
  The decimal number written by a string of digits that may go on with one separator and
  more digits, as the first group of the metric pattern captures it; and the number written
  by a captured group of digits, 0 for a group that captured nothing.
\<close>

definition decimal_value :: "jsstring \<Rightarrow> rat" where
  "decimal_value g =
     (let ip = takeWhile isDigit g; fp = drop 1 (dropWhile isDigit g)
      in of_int (digits_value (ip @ fp)) * pow10 (- int (length fp)))"

definition captured_digits :: "jsstring option \<Rightarrow> rat" where
  "captured_digits g = (case g of None \<Rightarrow> 0 | Some ds \<Rightarrow> of_int (digits_value ds))"

text \<open>\<open>approx tol x v\<close>: the number \<open>v\<close> is finite and within \<open>tol\<close> of \<open>x\<close>.\<close>

definition approx :: "rat \<Rightarrow> rat \<Rightarrow> number \<Rightarrow> bool" where
  "approx tol x v = (case v of Finite r \<Rightarrow> \<bar>r - x\<bar> \<le> tol | PosInfinity \<Rightarrow> False | NegInfinity \<Rightarrow> False | NaN \<Rightarrow> False)"

text \<open>
  The row scanner as the specification words it: each row after the first gives the value
  of its first cell, if it has a cell and the cell parses; the values are kept in row order.
\<close>

definition firstCellValue :: "row \<Rightarrow> number option" where
  "firstCellValue cells =
     (case cells of
        [] \<Rightarrow> None
      | markCell # others \<Rightarrow>
          (case parseCell (trim markCell) of Inl e \<Rightarrow> None | Inr r \<Rightarrow> r))"

definition scan :: "table \<Rightarrow> number list" where
  "scan rows = List.map_filter firstCellValue (drop 1 rows)"

section \<open>Rounding to binary64\<close>

lemma pow2_powi: "pow2 e = 2 powi e"
  by (simp add: pow2_def power_int_def field_simps)

lemma pow2_pos: "0 < pow2 e"
  by (simp add: pow2_powi)

lemma pow2_mono: "e \<le> e' \<Longrightarrow> pow2 e \<le> pow2 e'"
  by (simp add: pow2_powi power_int_increasing)

lemma pow2_add: "pow2 (a + b) = pow2 a * pow2 b"
  by (simp add: pow2_powi power_int_add)

lemma pow2_less: "pow2 e < pow2 e' \<Longrightarrow> e < e'"
  using pow2_mono [of e' e] by (cases "e < e'") auto

lemma bitlen_pow2_bounds:
  assumes "0 < (p::int)"
  shows "pow2 (bitlen p - 1) \<le> of_int p" "of_int p < pow2 (bitlen p)"
proof -
  from assms have b: "1 \<le> bitlen p" by (auto simp: bitlen_alt_def)
  from bitlen_bounds [OF assms]
  have lo: "(2::int) ^ nat (bitlen p - 1) \<le> p" and hi: "p < 2 ^ nat (bitlen p)" by auto
  from lo have "(of_int ((2::int) ^ nat (bitlen p - 1)) :: rat) \<le> of_int p"
    by (simp only: of_int_le_iff)
  with b show "pow2 (bitlen p - 1) \<le> of_int p" by (simp add: pow2_def)
  from hi have "(of_int p :: rat) < of_int ((2::int) ^ nat (bitlen p))"
    by (simp only: of_int_less_iff)
  with b show "of_int p < pow2 (bitlen p)" by (simp add: pow2_def)
qed

lemma ilog2_bounds:
  assumes "0 < a"
  shows "pow2 (ilog2 a) \<le> a \<and> a < pow2 (ilog2 a + 1)"
proof -
  obtain p q where pq: "quotient_of a = (p, q)" by (cases "quotient_of a")
  then have q: "0 < q" by (rule quotient_of_denom_pos)
  from pq have a: "a = of_int p / of_int q" by (rule quotient_of_div)
  with assms q have p: "0 < p" by (simp add: zero_less_divide_iff)
  let ?d = "bitlen p - bitlen q"
  have lt: "a < pow2 (?d + 1)"
  proof -
    have "of_int p < pow2 (bitlen p)" using p by (rule bitlen_pow2_bounds)
    also have "pow2 (bitlen p) = pow2 (?d + 1) * pow2 (bitlen q - 1)"
      by (simp add: pow2_add [symmetric])
    also have "\<dots> \<le> pow2 (?d + 1) * of_int q"
      using bitlen_pow2_bounds(1) [OF q] pow2_pos [of "?d + 1"] by simp
    finally show ?thesis using q by (simp add: a pos_divide_less_eq)
  qed
  have ge: "pow2 (?d - 1) \<le> a"
  proof -
    have "pow2 (?d - 1) * of_int q \<le> pow2 (?d - 1) * pow2 (bitlen q)"
      using bitlen_pow2_bounds(2) [OF q] pow2_pos [of "?d - 1"] by simp
    also have "\<dots> = pow2 (bitlen p - 1)" by (simp add: pow2_add [symmetric])
    also have "\<dots> \<le> of_int p" using p by (rule bitlen_pow2_bounds)
    finally show ?thesis using q by (simp add: a pos_le_divide_eq)
  qed
  show ?thesis
  proof (cases "pow2 ?d \<le> a")
    case True
    then show ?thesis using lt by (simp add: ilog2_def pq Let_def)
  next
    case False
    then show ?thesis using ge by (simp add: ilog2_def pq Let_def)
  qed
qed

lemma ilog2_eqI:
  assumes "pow2 e \<le> a" "a < pow2 (e + 1)"
  shows "ilog2 a = e"
proof -
  from assms(1) pow2_pos [of e] have "0 < a" by simp
  from ilog2_bounds [OF this] have b: "pow2 (ilog2 a) \<le> a" "a < pow2 (ilog2 a + 1)" by auto
  from b(1) assms(2) have "pow2 (ilog2 a) < pow2 (e + 1)" by simp
  then have 1: "ilog2 a < e + 1" by (rule pow2_less)
  from assms(1) b(2) have "pow2 e < pow2 (ilog2 a + 1)" by simp
  then have "e < ilog2 a + 1" by (rule pow2_less)
  with 1 show ?thesis by simp
qed

lemma round_half_even_cert:
  assumes "\<bar>x - of_int n\<bar> < 1 / 2"
  shows "round_half_even x = n"
proof (cases "of_int n \<le> x")
  case True
  with assms have "\<lfloor>x\<rfloor> = n" by (intro floor_unique) auto
  with assms True show ?thesis by (simp add: round_half_even_def Let_def)
next
  case False
  with assms have f: "\<lfloor>x\<rfloor> = n - 1" by (intro floor_unique) auto
  with assms False show ?thesis by (auto simp add: round_half_even_def Let_def)
qed

lemma round_half_even_ge:
  assumes "of_int k \<le> x"
  shows "k \<le> round_half_even x"
proof -
  from assms have "k \<le> \<lfloor>x\<rfloor>" by (simp add: le_floor_iff)
  then show ?thesis by (auto simp add: round_half_even_def Let_def)
qed

lemma round_double_cert:
  assumes "pow2 e \<le> x" "x < pow2 (e + 1)" "- 1022 \<le> e"
    and "\<bar>x / pow2 (e - 52) - of_int n\<bar> < 1 / 2"
    and "of_int n * pow2 (e - 52) < pow2 1024"
  shows "round_double x = Finite (of_int n * pow2 (e - 52))"
proof -
  from assms(1) pow2_pos [of e] have x: "0 < x" by simp
  have e: "ilog2 x = e" using assms(1,2) by (rule ilog2_eqI)
  have r: "round_half_even (x / pow2 (e - 52)) = n" using assms(4) by (rule round_half_even_cert)
  have m: "max e (- 1022) = e" using assms(3) by simp
  show ?thesis using x assms(5) by (simp add: round_double_def Let_def e m r)
qed

lemma round_double_nonneg:
  assumes "0 \<le> x"
  shows "round_double x = PosInfinity \<or> (\<exists>r\<ge>0. round_double x = Finite r)"
proof (cases "x = 0")
  case True
  then show ?thesis by (simp add: round_double_def)
next
  case False
  let ?u = "pow2 (max (ilog2 \<bar>x\<bar>) (- 1022) - 52)"
  have "0 \<le> \<bar>x\<bar> / ?u" using pow2_pos [of "max (ilog2 \<bar>x\<bar>) (- 1022) - 52"] by simp
  then have "of_int 0 \<le> \<bar>x\<bar> / ?u" by simp
  then have "0 \<le> round_half_even (\<bar>x\<bar> / ?u)" by (rule round_half_even_ge)
  then have "0 \<le> of_int (round_half_even (\<bar>x\<bar> / ?u)) * ?u"
    using pow2_pos [of "max (ilog2 \<bar>x\<bar>) (- 1022) - 52"] by simp
  with False assms show ?thesis by (simp add: round_double_def Let_def)
qed

lemma round_double_overflow:
  assumes "pow2 1024 \<le> x"
  shows "round_double x = PosInfinity"
proof -
  from assms pow2_pos [of 1024] have x: "0 < x" by simp
  from ilog2_bounds [OF x] have b: "pow2 (ilog2 x) \<le> x" "x < pow2 (ilog2 x + 1)" by auto
  from assms b(2) have "pow2 1024 < pow2 (ilog2 x + 1)" by simp
  then have e: "1024 \<le> ilog2 x" using pow2_less by fastforce
  let ?u = "pow2 (ilog2 x - 52)"
  have u: "0 < ?u" by (rule pow2_pos)
  have "pow2 52 * ?u = pow2 (ilog2 x)" by (simp add: pow2_add [symmetric])
  with b(1) u have "pow2 52 \<le> x / ?u" by (simp add: pos_le_divide_eq)
  moreover have "pow2 52 = of_int (2 ^ 52)" by (simp add: pow2_def)
  ultimately have "of_int (2 ^ 52) \<le> x / ?u" by simp
  then have "2 ^ 52 \<le> round_half_even (x / ?u)" by (rule round_half_even_ge)
  then have "(of_int (2 ^ 52) :: rat) \<le> of_int (round_half_even (x / ?u))"
    by (simp only: of_int_le_iff)
  then have "of_int (2 ^ 52) * ?u \<le> of_int (round_half_even (x / ?u)) * ?u"
    using u by (simp only: mult_le_cancel_right_pos)
  moreover have "of_int (2 ^ 52) * ?u = pow2 (ilog2 x)"
    using \<open>pow2 52 * ?u = pow2 (ilog2 x)\<close> \<open>pow2 52 = of_int (2 ^ 52)\<close> by simp
  moreover have "pow2 1024 \<le> pow2 (ilog2 x)" using e by (rule pow2_mono)
  ultimately have "pow2 1024 \<le> of_int (round_half_even (x / ?u)) * ?u" by simp
  with x e show ?thesis by (simp add: round_double_def Let_def max_def)
qed

lemma rd_6: "round_double 6 = Finite 6"
  using round_double_cert [of 2 6 "6 * 2 ^ 50"] by (simp add: pow2_def)

lemma rd_3048: "round_double (3048 / 10000) = Finite (5490788665690109 / 18014398509481984)"
  using round_double_cert [of "-2" "3048 / 10000" 5490788665690109] by (simp add: pow2_def)

section \<open>Backtracking matches\<close>

lemma star_sound:
  "s' \<in> set (star c s) \<Longrightarrow> \<exists>p. s = p @ s' \<and> list_all (in_class c) p"
proof (induction s)
  case Nil
  then show ?case by simp
next
  case (Cons x xs)
  show ?case
  proof (cases "s' = x # xs")
    case True
    then show ?thesis by simp
  next
    case False
    with Cons.prems have x: "in_class c x" and "s' \<in> set (star c xs)"
      by (auto split: if_splits)
    with Cons.IH obtain p where "xs = p @ s'" "list_all (in_class c) p" by blast
    with x have "x # xs = (x # p) @ s' \<and> list_all (in_class c) (x # p)" by simp
    then show ?thesis by blast
  qed
qed

lemma star_head: "\<exists>others. star c s = dropWhile (in_class c) s # others"
  by (induction s) auto

lemma run_sound:
  "(caps', s') \<in> set (run r (caps, s)) \<Longrightarrow> \<exists>p. p \<in> lang r \<and> s = p @ s'"
proof (induction r arbitrary: caps s caps' s')
  case (Atom c)
  then show ?case by (auto split: list.splits if_splits)
next
  case (Star c)
  then show ?case using star_sound by fastforce
next
  case (Plus c)
  then obtain x xs where s: "s = x # xs" and x: "in_class c x" and "s' \<in> set (star c xs)"
    by (auto split: list.splits if_splits)
  then obtain p where "xs = p @ s'" "list_all (in_class c) p" using star_sound by blast
  with s x have "x # p \<in> lang (Plus c) \<and> s = (x # p) @ s'" by simp
  then show ?case by blast
next
  case (Opt r)
  then show ?case by fastforce
next
  case (Seq a b)
  then obtain c1 s1 where 1: "(c1, s1) \<in> set (run a (caps, s))"
    and 2: "(caps', s') \<in> set (run b (c1, s1))" by auto
  from Seq.IH(1) [OF 1] obtain u where u: "u \<in> lang a" "s = u @ s1" by blast
  from Seq.IH(2) [OF 2] obtain v where v: "v \<in> lang b" "s1 = v @ s'" by blast
  from u v have "u @ v \<in> lang (Seq a b) \<and> s = (u @ v) @ s'" by auto
  then show ?case by blast
next
  case (Group i r)
  then show ?case by auto
qed

lemma run_caps:
  "(caps', s') \<in> set (run r (caps, s)) \<Longrightarrow>
   caps' i = caps i \<or> (\<exists>p. p \<in> group_lang r i \<and> caps' i = Some p)"
proof (induction r arbitrary: caps s caps' s')
  case (Atom c)
  then show ?case by (auto split: list.splits if_splits)
next
  case (Star c)
  then show ?case by auto
next
  case (Plus c)
  then show ?case by (auto split: list.splits if_splits)
next
  case (Opt r)
  from Opt.prems have "(caps', s') \<in> set (run r (caps, s)) \<or> caps' = caps" by auto
  then show ?case using Opt.IH by auto
next
  case (Seq a b)
  then obtain c1 s1 where 1: "(c1, s1) \<in> set (run a (caps, s))"
    and 2: "(caps', s') \<in> set (run b (c1, s1))" by auto
  from Seq.IH(1) [OF 1] Seq.IH(2) [OF 2] show ?case by auto
next
  case (Group j r)
  then obtain c0 where 0: "(c0, s') \<in> set (run r (caps, s))"
    and c: "caps' = c0(j \<mapsto> take (length s - length s') s)" by auto
  from run_sound [OF 0] obtain p where p: "p \<in> lang r" "s = p @ s'" by blast
  then have t: "take (length s - length s') s = p" by simp
  show ?case
  proof (cases "i = j")
    case True
    with c t p show ?thesis by simp
  next
    case False
    with c Group.IH [OF 0] show ?thesis by auto
  qed
qed

lemma run_group_first:
  assumes "(caps', s') \<in> set (run (Seq (Group i g) r) (caps, s))" and "group_lang r i = {}"
  shows "\<exists>p. p \<in> lang g \<and> caps' i = Some p"
proof -
  from assms(1) have "\<exists>st\<in>set (run (Group i g) (caps, s)). (caps', s') \<in> set (run r st)"
    unfolding run.simps(5) by (simp del: run.simps)
  then obtain c1 s1 where 1: "(c1, s1) \<in> set (run (Group i g) (caps, s))"
    and 2: "(caps', s') \<in> set (run r (c1, s1))" by (auto simp del: run.simps)
  from 1 obtain c0 where 0: "(c0, s1) \<in> set (run g (caps, s))"
    and c: "c1 = c0(i \<mapsto> take (length s - length s1) s)" by auto
  from run_sound [OF 0] obtain p where p: "p \<in> lang g" "s = p @ s1" by blast
  then have "take (length s - length s1) s = p" by simp
  with c have "c1 i = Some p" by simp
  moreover from run_caps [OF 2, of i] assms(2) have "caps' i = c1 i" by simp
  ultimately show ?thesis using p by simp
qed

lemma match_Some:
  "match s r = Some caps \<Longrightarrow>
   \<exists>pre t rest. s = pre @ t \<and> (caps, rest) \<in> set (run r (Map.empty, t))"
proof (induction s)
  case Nil
  then show ?case by (auto split: list.splits)
next
  case (Cons x xs)
  show ?case
  proof (cases "run r (Map.empty, x # xs)")
    case Nil
    with Cons.prems have "match xs r = Some caps" by simp
    with Cons.IH obtain pre t rest where "xs = pre @ t" "(caps, rest) \<in> set (run r (Map.empty, t))"
      by blast
    then have "x # xs = (x # pre) @ t \<and> (caps, rest) \<in> set (run r (Map.empty, t))" by simp
    then show ?thesis by blast
  next
    case (Cons a list)
    with Cons.prems have "(caps, snd a) \<in> set (run r (Map.empty, x # xs))"
      by (cases a) auto
    then have "x # xs = [] @ (x # xs) \<and> (caps, snd a) \<in> set (run r (Map.empty, x # xs))" by simp
    then show ?thesis by blast
  qed
qed

lemma match_first:
  "run r (Map.empty, s) = (caps, rest) # others \<Longrightarrow> match s r = Some caps"
  by (cases s) simp_all

lemma match_skip:
  "list_all (\<lambda>x. \<forall>xs. run r (Map.empty, x # xs) = []) pre \<Longrightarrow> match (pre @ s) r = match s r"
  by (induction pre) simp_all

lemma match_found:
  "run r (Map.empty, s) \<noteq> [] \<Longrightarrow> match (pre @ s) r \<noteq> None"
proof (induction pre)
  case Nil
  then show ?case by (cases s; cases "run r (Map.empty, s)") auto
next
  case (Cons x pre)
  then show ?case by (cases "run r (Map.empty, x # pre @ s)") auto
qed

lemma match_contains:
  assumes "match s r = Some caps"
  shows "\<exists>pre p post. s = pre @ p @ post \<and> p \<in> lang r"
proof -
  from match_Some [OF assms] obtain pre t rest
    where "s = pre @ t" "(caps, rest) \<in> set (run r (Map.empty, t))" by blast
  moreover from run_sound [OF this(2)] obtain p where "p \<in> lang r" "t = p @ rest" by blast
  ultimately show ?thesis by blast
qed

lemma run_Seq_head:
  "run a st = x # xs \<Longrightarrow> run b x = y # ys \<Longrightarrow> \<exists>others. run (Seq a b) st = y # others"
  by simp

lemma run_Star_head:
  "\<exists>others. run (Star c) (caps, s) = (caps, dropWhile (in_class c) s) # others"
  using star_head [of c s] by auto

lemma run_Plus_head:
  "in_class c x \<Longrightarrow>
   \<exists>others. run (Plus c) (caps, x # xs) = (caps, dropWhile (in_class c) (x # xs)) # others"
  using star_head [of c xs] by auto

lemma run_Group_head:
  "run r (caps, s) = (caps', s') # others \<Longrightarrow>
   \<exists>others'. run (Group i r) (caps, s) = (caps'(i \<mapsto> take (length s - length s') s), s') # others'"
  by simp

lemma dropWhile_run:
  "list_all P xs \<Longrightarrow> (case ys of [] \<Rightarrow> True | y # _ \<Rightarrow> \<not> P y) \<Longrightarrow> dropWhile P (xs @ ys) = ys"
  by (induction xs) (auto split: list.splits)

lemma takeWhile_run:
  "list_all P xs \<Longrightarrow> (case ys of [] \<Rightarrow> True | y # _ \<Rightarrow> \<not> P y) \<Longrightarrow> takeWhile P (xs @ ys) = xs"
  by (induction xs) (auto split: list.splits)

section \<open>Numbers read from captured digits\<close>

lemma round_half_even_tie:
  assumes "x = of_int n - 1 / 2 \<or> x = of_int n + 1 / 2" "even n"
  shows "round_half_even x = n"
proof -
  from assms(1) show ?thesis
  proof
    assume x: "x = of_int n - 1 / 2"
    then have "\<lfloor>x\<rfloor> = n - 1" by (intro floor_unique) auto
    with x assms(2) show ?thesis by (simp add: round_half_even_def Let_def)
  next
    assume x: "x = of_int n + 1 / 2"
    then have "\<lfloor>x\<rfloor> = n" by (intro floor_unique) auto
    with x assms(2) show ?thesis by (simp add: round_half_even_def Let_def)
  qed
qed

lemma round_double_cert_tie:
  assumes "pow2 e \<le> x" "x < pow2 (e + 1)" "- 1022 \<le> e"
    and "x / pow2 (e - 52) = of_int n - 1 / 2 \<or> x / pow2 (e - 52) = of_int n + 1 / 2" "even n"
    and "of_int n * pow2 (e - 52) < pow2 1024"
  shows "round_double x = Finite (of_int n * pow2 (e - 52))"
proof -
  from assms(1) pow2_pos [of e] have x: "0 < x" by simp
  have e: "ilog2 x = e" using assms(1,2) by (rule ilog2_eqI)
  have r: "round_half_even (x / pow2 (e - 52)) = n" using assms(4,5) by (rule round_half_even_tie)
  have m: "max e (- 1022) = e" using assms(3) by simp
  show ?thesis using x assms(6) by (simp add: round_double_def Let_def e m r)
qed

lemma rd_254: "round_double (254 / 10000) = Finite (3660525777126739 / 144115188075855872)"
  using round_double_cert [of "-6" "254 / 10000" 7321051554253478] by (simp add: pow2_def)

lemma rd_1: "round_double 1 = Finite 1"
  using round_double_cert [of 0 1 "2 ^ 52"] by (simp add: pow2_def)

lemma rd_2: "round_double 2 = Finite 2"
  using round_double_cert [of 1 2 "2 ^ 52"] by (simp add: pow2_def)

lemma rd_100: "round_double 100 = Finite 100"
  using round_double_cert [of 6 100 "100 * 2 ^ 46"] by (simp add: pow2_def)

lemma rd_185: "round_double (185 / 100) = Finite (4165829655317709 / 2251799813685248)"
  using round_double_cert [of 0 "185 / 100" 8331659310635418] by (simp add: pow2_def)

lemma rd_6feet:
  "round_double (6 * (5490788665690109 / 18014398509481984)) = Finite (2059045749633791 / 1125899906842624)"
  using round_double_cert_tie [of 0 "6 * (5490788665690109 / 18014398509481984)" 8236182998535164]
  by (simp add: pow2_def)

lemma rd_1inch:
  "round_double (1 * (3660525777126739 / 144115188075855872)) = Finite (3660525777126739 / 144115188075855872)"
  using round_double_cert [of "-6" "3660525777126739 / 144115188075855872" 7321051554253478]
  by (simp add: pow2_def)

lemma rd_6feet_1inch:
  "round_double (2059045749633791 / 1125899906842624 + 3660525777126739 / 144115188075855872) =
   Finite (8350574429070375 / 4503599627370496)"
  using round_double_cert [of 0 "2059045749633791 / 1125899906842624 + 3660525777126739 / 144115188075855872" 8350574429070375]
  by (simp add: pow2_def)

lemma rd_big: "round_double (2 * 10 ^ 308) = PosInfinity"
  by (rule round_double_overflow) (simp add: pow2_def)

lemma nonneg_or_inf_round: "0 \<le> q \<Longrightarrow> nonneg_or_inf (round_double q)"
  using round_double_nonneg [of q] by (auto simp: nonneg_or_inf_def)

lemma nonneg_or_inf_mul:
  "nonneg_or_inf x \<Longrightarrow> 0 < c \<Longrightarrow> nonneg_or_inf (number_mul x (Finite c))"
  by (cases x) (auto simp: nonneg_or_inf_def intro: nonneg_or_inf_round [unfolded nonneg_or_inf_def])

lemma nonneg_or_inf_add:
  "nonneg_or_inf x \<Longrightarrow> nonneg_or_inf y \<Longrightarrow> nonneg_or_inf (number_add x y)"
  by (cases x; cases y) (auto simp: nonneg_or_inf_def intro: nonneg_or_inf_round [unfolded nonneg_or_inf_def])

lemma nonneg_or_inf_not_NaN: "nonneg_or_inf x \<Longrightarrow> x \<noteq> NaN"
  by (auto simp: nonneg_or_inf_def)

lemma digit_facts:
  "isDigit c \<Longrightarrow> \<not> isWhiteSpace c \<and> c \<noteq> 43 \<and> c \<noteq> 44 \<and> c \<noteq> 45 \<and> c \<noteq> 46 \<and> c \<noteq> 73 \<and> c \<noteq> 109 \<and> c \<noteq> 105 \<and> 48 \<le> c"
  by (auto simp: isDigit_def isWhiteSpace_def)

lemma space_facts:
  "isWhiteSpace c \<Longrightarrow> \<not> isDigit c \<and> c \<noteq> 109 \<and> c \<noteq> 105 \<and> c \<noteq> 44 \<and> c \<noteq> 46 \<and> c \<noteq> 102"
  by (auto simp: isDigit_def isWhiteSpace_def)

lemma digits_value_foldl:
  "list_all isDigit ds \<Longrightarrow> 0 \<le> n \<Longrightarrow> 0 \<le> foldl (\<lambda>n c. 10 * n + (int c - 48)) n ds"
  by (induction ds arbitrary: n) (auto simp: isDigit_def)

lemma digits_value_nonneg: "list_all isDigit ds \<Longrightarrow> 0 \<le> digits_value ds"
  by (simp add: digits_value_def digits_value_foldl)

lemma pow10_pos: "0 < pow10 e"
  by (simp add: pow10_def)

lemma parseFloat_digits:
  assumes "ds \<noteq> []" "list_all isDigit ds"
  shows "parseFloat ds = round_double (of_int (digits_value ds))"
proof -
  from assms obtain x xs where ds: "ds = x # xs" and x: "isDigit x" by (cases ds) auto
  from assms(2) have t: "takeWhile isDigit ds = ds" "dropWhile isDigit ds = []"
    by (simp_all add: list_all_iff)
  have nI: "take 8 ds \<noteq> ascii ''Infinity''"
    using digit_facts [OF x] by (simp add: ds ascii_def)
  have "unsignedDecimal ds = round_double (of_int (digits_value ds))"
    unfolding unsignedDecimal_def Let_def t
    using nI assms(1) by (simp add: exponentPart_def pow10_def)
  with digit_facts [OF x] show ?thesis by (simp add: parseFloat_def ds)
qed

lemma parseFloat_decimal:
  assumes "d1 \<noteq> []" "list_all isDigit d1" "list_all isDigit d2"
  shows "parseFloat (d1 @ 46 # d2) =
         round_double (of_int (digits_value (d1 @ d2)) * pow10 (- int (length d2)))"
proof -
  from assms obtain x xs where ds: "d1 = x # xs" and x: "isDigit x" by (cases d1) auto
  have t: "takeWhile isDigit (d1 @ 46 # d2) = d1" "dropWhile isDigit (d1 @ 46 # d2) = 46 # d2"
    using assms(2) by (simp_all add: takeWhile_run dropWhile_run isDigit_def)
  from assms(3) have t2: "takeWhile isDigit d2 = d2" "dropWhile isDigit d2 = []"
    by (simp_all add: list_all_iff)
  have nI: "take 8 (d1 @ 46 # d2) \<noteq> ascii ''Infinity''"
    using digit_facts [OF x] by (simp add: ds ascii_def)
  have "unsignedDecimal (d1 @ 46 # d2) =
        round_double (of_int (digits_value (d1 @ d2)) * pow10 (- int (length d2)))"
    unfolding unsignedDecimal_def Let_def t
    using nI assms(1) by (simp add: t2 exponentPart_def)
  with digit_facts [OF x] show ?thesis by (simp add: parseFloat_def ds)
qed

lemma replace_absent: "p \<notin> set xs \<Longrightarrow> replace xs p r = xs"
  by (induction xs) auto

lemma replace_first: "p \<notin> set xs \<Longrightarrow> replace (xs @ p # ys) p r = xs @ r # ys"
  by (induction xs) auto

lemma digits_no_comma: "list_all isDigit ds \<Longrightarrow> 44 \<notin> set ds"
  by (auto simp: list_all_iff isDigit_def)

lemma replace_digits: "list_all isDigit ds \<Longrightarrow> replace ds 44 r = ds"
  by (simp add: replace_absent digits_no_comma)

lemma replace_comma:
  "list_all isDigit d1 \<Longrightarrow> replace (d1 @ 44 # d2) 44 46 = d1 @ 46 # d2"
  by (simp add: replace_first digits_no_comma)

lemma replace_dot:
  "list_all isDigit d1 \<Longrightarrow> list_all isDigit d2 \<Longrightarrow> replace (d1 @ 46 # d2) 44 46 = d1 @ 46 # d2"
  by (rule replace_absent) (auto dest: digits_no_comma)

text \<open>The strings the first group of the metric pattern can capture.\<close>

lemma metric_group_shape:
  assumes "p \<in> lang (Seq (Plus Digit) (Seq (Opt (Atom (OneOf ''.,''))) (Star Digit)))"
  shows "\<exists>d1 d2. d1 \<noteq> [] \<and> list_all isDigit d1 \<and> list_all isDigit d2 \<and>
           (p = d1 \<or> p = d1 @ 46 # d2 \<or> p = d1 @ 44 # d2)"
proof -
  from assms obtain u v w where p: "p = u @ v @ w" and u: "u \<noteq> []" "list_all isDigit u"
    and v: "v = [] \<or> v = [46] \<or> v = [44]" and w: "list_all isDigit w"
    by (auto simp: ascii_def list_all_iff)
  from v show ?thesis
  proof (elim disjE)
    assume "v = []"
    with p u w have "u @ w \<noteq> [] \<and> list_all isDigit (u @ w) \<and> list_all isDigit [] \<and> p = u @ w"
      by simp
    then show ?thesis by blast
  next
    assume "v = [46]"
    with p u w show ?thesis by auto
  next
    assume "v = [44]"
    with p u w show ?thesis by auto
  qed
qed

lemma metric_group_number:
  assumes "p \<in> lang (Seq (Plus Digit) (Seq (Opt (Atom (OneOf ''.,''))) (Star Digit)))"
  shows "\<exists>q\<ge>0. parseFloat (replace p 44 46) = round_double q"
proof -
  from metric_group_shape [OF assms] obtain d1 d2
    where d: "d1 \<noteq> []" "list_all isDigit d1" "list_all isDigit d2"
      and p: "p = d1 \<or> p = d1 @ 46 # d2 \<or> p = d1 @ 44 # d2" by blast
  have q1: "0 \<le> rat_of_int (digits_value d1)" using d(2) by (simp add: digits_value_nonneg)
  have q2: "0 \<le> rat_of_int (digits_value (d1 @ d2)) * pow10 (- int (length d2))"
    using d(2,3) pow10_pos [of "- int (length d2)"] by (simp add: digits_value_nonneg)
  from p show ?thesis
  proof (elim disjE)
    assume "p = d1"
    with d have "parseFloat (replace p 44 46) = round_double (rat_of_int (digits_value d1))"
      by (simp add: replace_digits parseFloat_digits)
    with q1 show ?thesis by blast
  next
    assume "p = d1 @ 46 # d2"
    with d have "parseFloat (replace p 44 46) =
        round_double (rat_of_int (digits_value (d1 @ d2)) * pow10 (- int (length d2)))"
      by (simp add: replace_dot parseFloat_decimal)
    with q2 show ?thesis by blast
  next
    assume "p = d1 @ 44 # d2"
    with d have "parseFloat (replace p 44 46) =
        round_double (rat_of_int (digits_value (d1 @ d2)) * pow10 (- int (length d2)))"
      by (simp add: replace_comma parseFloat_decimal)
    with q2 show ?thesis by blast
  qed
qed

section \<open>The loop body and the loops\<close>

lemma in_class_Digit: "in_class Digit = isDigit"
  by (rule ext) simp

lemma metric_match_group:
  assumes "match s METRES_REGEX = Some caps"
  shows "\<exists>p. caps 1 = Some p \<and>
           p \<in> lang (Seq (Plus Digit) (Seq (Opt (Atom (OneOf ''.,''))) (Star Digit)))"
proof -
  from match_Some [OF assms] obtain pre t rest
    where "(caps, rest) \<in> set (run METRES_REGEX (Map.empty, t))" by blast
  then have "\<exists>p. p \<in> lang (Seq (Plus Digit) (Seq (Opt (Atom (OneOf ''.,''))) (Star Digit))) \<and>
      caps 1 = Some p"
    unfolding METRES_REGEX_def by (rule run_group_first) simp
  then show ?thesis by blast
qed

lemma metricBranch_emits:
  assumes "match s METRES_REGEX = Some caps"
  shows "\<exists>v. metricBranch caps = Inr (Some v) \<and> nonneg_or_inf v"
proof -
  from metric_match_group [OF assms] obtain p where p: "caps 1 = Some p"
    and l: "p \<in> lang (Seq (Plus Digit) (Seq (Opt (Atom (OneOf ''.,''))) (Star Digit)))" by blast
  from metric_group_number [OF l] obtain q where q: "0 \<le> q"
    "parseFloat (replace p 44 46) = round_double q" by blast
  from q(1) have n: "nonneg_or_inf (round_double q)" by (rule nonneg_or_inf_round)
  then have "round_double q \<noteq> NaN" by (rule nonneg_or_inf_not_NaN)
  with p q(2) n show ?thesis by (simp add: metricBranch_def isNaN_def)
qed

lemma feet_match_groups:
  assumes "match s FEET_REGEX = Some caps"
  shows "(\<exists>p. caps 1 = Some p \<and> p \<noteq> [] \<and> list_all isDigit p) \<and>
         (caps 2 = None \<or> (\<exists>p. caps 2 = Some p \<and> p \<noteq> [] \<and> list_all isDigit p))"
proof -
  from match_Some [OF assms] obtain pre t rest
    where r: "(caps, rest) \<in> set (run FEET_REGEX (Map.empty, t))" by blast
  from r have "\<exists>p. p \<in> lang (Plus Digit) \<and> caps 1 = Some p"
    unfolding FEET_REGEX_def by (rule run_group_first) simp
  moreover from run_caps [OF r, of 2]
  have "caps 2 = None \<or> (\<exists>p. p \<in> lang (Plus Digit) \<and> caps 2 = Some p)"
    by (simp add: FEET_REGEX_def)
  ultimately show ?thesis by (auto simp: in_class_Digit)
qed

lemma imperialBranch_nonneg:
  assumes "match s FEET_REGEX = Some caps"
  shows "nonneg_or_inf (imperialBranch caps)"
proof -
  from feet_match_groups [OF assms] obtain p where p: "caps 1 = Some p" "p \<noteq> []" "list_all isDigit p"
    and 2: "caps 2 = None \<or> (\<exists>p. caps 2 = Some p \<and> p \<noteq> [] \<and> list_all isDigit p)" by blast
  have d: "nonneg_or_inf (parseFloat ds)" if "ds \<noteq> []" "list_all isDigit ds" for ds
    using that by (simp add: parseFloat_digits nonneg_or_inf_round digits_value_nonneg)
  have feet: "nonneg_or_inf (parseFloat (case caps 1 of None \<Rightarrow> ascii ''undefined'' | Some g \<Rightarrow> g))"
    using p d by simp
  have inches: "nonneg_or_inf (case caps 2 of None \<Rightarrow> Finite 0
      | Some g \<Rightarrow> if g = [] then Finite 0 else parseFloat g)"
    using 2 d by (auto simp: nonneg_or_inf_def)
  show ?thesis
    unfolding imperialBranch_def Let_def rd_3048 rd_254
    by (intro nonneg_or_inf_add nonneg_or_inf_mul feet inches) simp_all
qed

lemma parseCell_cases:
  "(\<exists>caps. match s METRES_REGEX = Some caps \<and> parseCell s = metricBranch caps) \<or>
   (\<exists>caps. match s METRES_REGEX = None \<and> match s FEET_REGEX = Some caps \<and>
      parseCell s = Inr (Some (imperialBranch caps))) \<or>
   (match s METRES_REGEX = None \<and> match s FEET_REGEX = None \<and> parseCell s = Inr None)"
  by (auto simp: parseCell_def split: option.splits)

lemma parseCell_result:
  "parseCell s = Inr None \<or> (\<exists>v. parseCell s = Inr (Some v) \<and> nonneg_or_inf v)"
  using parseCell_cases [of s] metricBranch_emits [of s] imperialBranch_nonneg [of s]
  by auto

lemma parseCell_firstCellValue:
  "parseCell (trim markCell) = Inr (firstCellValue (markCell # others))"
  using parseCell_result [of "trim markCell"] by (auto simp: firstCellValue_def)

lemma scanRows_map_filter:
  "scanRows rows vals = Inr (vals @ List.map_filter firstCellValue rows)"
proof (induction rows arbitrary: vals)
  case Nil
  then show ?case by (simp add: List.map_filter_simps)
next
  case (Cons cells rows)
  show ?case
  proof (cases cells)
    case Nil
    then show ?thesis by (simp add: Cons.IH List.map_filter_simps firstCellValue_def)
  next
    case (Cons markCell others)
    then show ?thesis
      by (cases "firstCellValue (markCell # others)")
        (simp_all add: Cons.IH List.map_filter_simps parseCell_firstCellValue [of markCell others])
  qed
qed

lemma extractColumnData_scan:
  "extractColumnData rows =
     Inr (if scan rows = [] then [] else [\<lparr>header = ascii ''Height'', values = scan rows\<rparr>])"
  by (simp add: extractColumnData_def scanRows_map_filter scan_def)

lemma forEachTable_scan:
  "forEachTable ts column =
     Inr (column @ map (\<lambda>t. \<lparr>header = ascii ''Height'', values = scan t\<rparr>)
                     (filter (\<lambda>t. scan t \<noteq> []) ts))"
  by (induction ts arbitrary: column) (simp_all add: extractColumnData_scan)

lemma getColumns_Document:
  "ts \<noteq> [] \<Longrightarrow> getColumns (Document ts) =
     Inr (map (\<lambda>t. \<lparr>header = ascii ''Height'', values = scan t\<rparr>) (filter (\<lambda>t. scan t \<noteq> []) ts))"
  by (simp add: getColumns_def getTables_def forEachTable_scan)

lemma firstCellValue_nonneg: "firstCellValue cells = Some v \<Longrightarrow> nonneg_or_inf v"
  using parseCell_result [of "trim (hd cells)"]
  by (cases cells) (auto simp: firstCellValue_def)

lemma scan_nonneg: "v \<in> set (scan rows) \<Longrightarrow> nonneg_or_inf v"
  by (auto simp: scan_def List.map_filter_def dest: firstCellValue_nonneg)

section \<open>The metric pattern on digits followed by the unit\<close>

lemma run_digits_head:
  assumes "d1 \<noteq> []" "list_all isDigit d1"
    and "case rest of [] \<Rightarrow> True | y # _ \<Rightarrow> \<not> isDigit y"
  shows "\<exists>others. run (Plus Digit) (caps, d1 @ rest) = (caps, rest) # others"
proof -
  from assms(1,2) obtain x xs where d: "d1 = x # xs" and x: "in_class Digit x" by (cases d1) auto
  from run_Plus_head [OF x, of caps "xs @ rest"]
  obtain others where "run (Plus Digit) (caps, d1 @ rest) =
      (caps, dropWhile (in_class Digit) (d1 @ rest)) # others"
    unfolding d by auto
  moreover have "dropWhile (in_class Digit) (d1 @ rest) = rest"
    using assms(2,3) by (simp add: in_class_Digit dropWhile_run)
  ultimately show ?thesis by simp
qed

lemma run_fraction_head:
  assumes "v = [] \<and> d2 = [] \<or> v = [46] \<or> v = [44]" "list_all isDigit d2"
    and "case rest of [] \<Rightarrow> True | y # _ \<Rightarrow> \<not> isDigit y \<and> y \<noteq> 46 \<and> y \<noteq> 44"
  shows "\<exists>others. run (Seq (Opt (Atom (OneOf ''.,''))) (Star Digit)) (caps, v @ d2 @ rest) =
           (caps, rest) # others"
proof -
  have star: "\<exists>others. run (Star Digit) (caps, d2 @ rest) = (caps, rest) # others"
  proof -
    have c: "case rest of [] \<Rightarrow> True | y # _ \<Rightarrow> \<not> isDigit y"
      using assms(3) by (cases rest) auto
    have "dropWhile (in_class Digit) (d2 @ rest) = rest"
      using assms(2) c by (simp add: in_class_Digit dropWhile_run)
    with run_Star_head [of Digit caps "d2 @ rest"] show ?thesis by simp
  qed
  from assms(1) show ?thesis
  proof (elim disjE conjE)
    assume v: "v = []" "d2 = []"
    have "run (Atom (OneOf ''.,'')) (caps, rest) = []"
      using assms(3) by (cases rest) (auto simp: ascii_def)
    then have "run (Opt (Atom (OneOf ''.,''))) (caps, rest) = [(caps, rest)]" by simp
    with star v show ?thesis by (auto simp del: run.simps(1,2,4))
  next
    assume v: "v = [46]"
    have "run (Opt (Atom (OneOf ''.,''))) (caps, v @ d2 @ rest) = [(caps, d2 @ rest), (caps, v @ d2 @ rest)]"
      by (simp add: v ascii_def)
    with star show ?thesis by (auto simp del: run.simps(1,2,4))
  next
    assume v: "v = [44]"
    have "run (Opt (Atom (OneOf ''.,''))) (caps, v @ d2 @ rest) = [(caps, d2 @ rest), (caps, v @ d2 @ rest)]"
      by (simp add: v ascii_def)
    with star show ?thesis by (auto simp del: run.simps(1,2,4))
  qed
qed

lemma run_unit_head:
  assumes "list_all isWhiteSpace ws"
  shows "\<exists>others. run (Seq (Star Space) (Atom (Lit CHR ''m''))) (caps, ws @ 109 # post) =
           (caps, post) # others"
proof -
  have "dropWhile (in_class Space) (ws @ 109 # post) = 109 # post"
  proof -
    have "in_class Space = isWhiteSpace" by (rule ext) simp
    then show ?thesis using assms by (simp add: dropWhile_run isWhiteSpace_def)
  qed
  with run_Star_head [of Space caps "ws @ 109 # post"]
  obtain others where "run (Star Space) (caps, ws @ 109 # post) = (caps, 109 # post) # others"
    by auto
  moreover have "run (Atom (Lit CHR ''m'')) (caps, 109 # post) = [(caps, post)]" by simp
  ultimately show ?thesis by (simp del: run.simps(1,2))
qed

lemma metric_head:
  assumes "d1 \<noteq> []" "list_all isDigit d1"
    and "v = [] \<and> d2 = [] \<or> v = [46] \<or> v = [44]" "list_all isDigit d2"
    and "list_all isWhiteSpace ws"
  shows "\<exists>others. run METRES_REGEX (caps, d1 @ v @ d2 @ ws @ 109 # post) =
           (caps(1 \<mapsto> d1 @ v @ d2), post) # others"
proof -
  let ?rest = "ws @ 109 # post"
  let ?s = "d1 @ v @ d2 @ ?rest"
  have rest: "case ?rest of [] \<Rightarrow> True | y # _ \<Rightarrow> \<not> isDigit y \<and> y \<noteq> 46 \<and> y \<noteq> 44"
    using assms(5) by (cases ws) (auto simp: isDigit_def dest: space_facts)
  have vrest: "case v @ d2 @ ?rest of [] \<Rightarrow> True | y # _ \<Rightarrow> \<not> isDigit y"
    using assms(3) rest by (cases ws) (auto simp: isDigit_def)
  from run_digits_head [OF assms(1,2) vrest]
  obtain o1 where 1: "run (Plus Digit) (caps, ?s) = (caps, v @ d2 @ ?rest) # o1" by blast
  from run_fraction_head [OF assms(3,4) rest]
  obtain o2 where 2: "run (Seq (Opt (Atom (OneOf ''.,''))) (Star Digit)) (caps, v @ d2 @ ?rest) =
      (caps, ?rest) # o2" by blast
  from run_Seq_head [OF 1 2]
  obtain o3 where 3: "run (Seq (Plus Digit) (Seq (Opt (Atom (OneOf ''.,''))) (Star Digit))) (caps, ?s) =
      (caps, ?rest) # o3" by blast
  from run_Group_head [OF 3, of 1]
  obtain o4 where 4: "run (Group 1 (Seq (Plus Digit) (Seq (Opt (Atom (OneOf ''.,''))) (Star Digit)))) (caps, ?s) =
      (caps(1 \<mapsto> d1 @ v @ d2), ?rest) # o4" by auto
  from run_unit_head [OF assms(5)]
  obtain o5 where 5: "run (Seq (Star Space) (Atom (Lit CHR ''m''))) (caps(1 \<mapsto> d1 @ v @ d2), ?rest) =
      (caps(1 \<mapsto> d1 @ v @ d2), post) # o5" by blast
  from run_Seq_head [OF 4 5] show ?thesis unfolding METRES_REGEX_def .
qed

lemma metric_no_start: "\<not> isDigit x \<Longrightarrow> run METRES_REGEX (caps, x # xs) = []"
  by (simp add: METRES_REGEX_def)

lemma feet_no_start: "\<not> isDigit x \<Longrightarrow> run FEET_REGEX (caps, x # xs) = []"
  by (simp add: FEET_REGEX_def)

lemma match_skip_nondigits:
  "list_all (\<lambda>c. \<not> isDigit c) pre \<Longrightarrow> match (pre @ s) METRES_REGEX = match s METRES_REGEX"
  by (rule match_skip) (simp add: list_all_iff metric_no_start)

lemma metric_match:
  assumes "d1 \<noteq> []" "list_all isDigit d1"
    and "v = [] \<and> d2 = [] \<or> v = [46] \<or> v = [44]" "list_all isDigit d2"
    and "list_all isWhiteSpace ws" "list_all (\<lambda>c. \<not> isDigit c) pre"
  shows "match (pre @ d1 @ v @ d2 @ ws @ 109 # post) METRES_REGEX = Some [1 \<mapsto> d1 @ v @ d2]"
proof -
  from metric_head [OF assms(1-5), of Map.empty post]
  obtain others where "run METRES_REGEX (Map.empty, d1 @ v @ d2 @ ws @ 109 # post) =
      ([1 \<mapsto> d1 @ v @ d2], post) # others" by blast
  then have "match (d1 @ v @ d2 @ ws @ 109 # post) METRES_REGEX = Some [1 \<mapsto> d1 @ v @ d2]"
    by (rule match_first)
  with match_skip_nondigits [OF assms(6)] show ?thesis by simp
qed

lemma parseCell_metric_digits:
  assumes "ds \<noteq> []" "list_all isDigit ds" "list_all isWhiteSpace ws"
    and "list_all (\<lambda>c. \<not> isDigit c) pre"
  shows "parseCell (pre @ ds @ ws @ 109 # post) = Inr (Some (round_double (of_int (digits_value ds))))"
proof -
  from metric_match [OF assms(1,2) _ _ assms(3,4), of "[]" "[]" post]
  have m: "match (pre @ ds @ ws @ 109 # post) METRES_REGEX = Some [1 \<mapsto> ds]" by simp
  from assms(2) have "nonneg_or_inf (round_double (of_int (digits_value ds)))"
    by (simp add: nonneg_or_inf_round digits_value_nonneg)
  then have "round_double (of_int (digits_value ds)) \<noteq> NaN" by (rule nonneg_or_inf_not_NaN)
  then show ?thesis using assms(1,2)
    by (simp add: parseCell_def m metricBranch_def replace_digits parseFloat_digits isNaN_def)
qed

lemma parseCell_metric_decimal:
  assumes "d1 \<noteq> []" "list_all isDigit d1" "list_all isDigit d2" "list_all isWhiteSpace ws"
    and "x = 46 \<or> x = 44"
  shows "parseCell (d1 @ x # d2 @ ws @ 109 # post) =
         Inr (Some (round_double (of_int (digits_value (d1 @ d2)) * pow10 (- int (length d2)))))"
proof -
  from assms(5) have v: "[x] = [] \<and> d2 = [] \<or> [x] = [46] \<or> [x] = [44]" by auto
  from metric_match [OF assms(1,2) v assms(3,4), of "[]" post]
  have m: "match (d1 @ x # d2 @ ws @ 109 # post) METRES_REGEX = Some [1 \<mapsto> d1 @ x # d2]" by simp
  have r: "replace (d1 @ x # d2) 44 46 = d1 @ 46 # d2"
    using assms(2,3,5) by (auto simp: replace_dot replace_comma)
  have "0 \<le> rat_of_int (digits_value (d1 @ d2)) * pow10 (- int (length d2))"
    using assms(2,3) pow10_pos [of "- int (length d2)"] by (simp add: digits_value_nonneg)
  then have "nonneg_or_inf (round_double (of_int (digits_value (d1 @ d2)) * pow10 (- int (length d2))))"
    by (rule nonneg_or_inf_round)
  then have "round_double (of_int (digits_value (d1 @ d2)) * pow10 (- int (length d2))) \<noteq> NaN"
    by (rule nonneg_or_inf_not_NaN)
  then show ?thesis using assms(1,2,3)
    by (simp add: parseCell_def m metricBranch_def r parseFloat_decimal isNaN_def)
qed

section \<open>Examples\<close>

lemmas char_defs = ascii_def isDigit_def isWhiteSpace_def

lemma cell_185: "parseCell (ascii ''1.85 m'') = Inr (Some (Finite (4165829655317709 / 2251799813685248)))"
proof -
  have s: "ascii ''1.85 m'' = [49] @ 46 # [56, 53] @ [32] @ 109 # []" by (simp add: ascii_def)
  have q: "rat_of_int (digits_value ([49] @ [56, 53])) * pow10 (- int (length [56, 53::nat])) = 185 / 100"
    by (simp add: digits_value_def pow10_def)
  have "parseCell ([49] @ 46 # [56, 53] @ [32] @ 109 # []) =
      Inr (Some (round_double (rat_of_int (digits_value ([49] @ [56, 53])) * pow10 (- int (length [56, 53::nat])))))"
    by (rule parseCell_metric_decimal) (simp_all add: char_defs)
  with s q rd_185 show ?thesis by (simp only:)
qed

lemma cell_na: "parseCell (ascii ''n/a'') = Inr None"
  by (simp add: parseCell_def METRES_REGEX_def FEET_REGEX_def char_defs)


lemma cell_5ft: "parseCell (ascii ''5 ft'') = Inr None"
  by (simp add: parseCell_def METRES_REGEX_def FEET_REGEX_def char_defs)

lemma parseFloat_6: "parseFloat [54] = Finite 6"
  using parseFloat_digits [of "[54]"] rd_6 by (simp add: isDigit_def digits_value_def)

lemma parseFloat_1: "parseFloat [49] = Finite 1"
  using parseFloat_digits [of "[49]"] rd_1 by (simp add: isDigit_def digits_value_def)

lemma cell_6ft1in:
  "parseCell (ascii ''6 ft 1 in'') = Inr (Some (Finite (8350574429070375 / 4503599627370496)))"
proof -
  have m: "match (ascii ''6 ft 1 in'') METRES_REGEX = None"
    by (simp add: METRES_REGEX_def char_defs)
  have f: "match (ascii ''6 ft 1 in'') FEET_REGEX = Some [1 \<mapsto> [54], 2 \<mapsto> [49]]"
    by (simp add: FEET_REGEX_def char_defs)
  have i: "imperialBranch [1 \<mapsto> [54], 2 \<mapsto> [49]] =
      number_add (number_mul (parseFloat [54]) (round_double (3048 / 10000)))
        (number_mul (parseFloat [49]) (round_double (254 / 10000)))"
    by (simp add: imperialBranch_def)
  have "imperialBranch [1 \<mapsto> [54], 2 \<mapsto> [49]] = Finite (8350574429070375 / 4503599627370496)"
    by (simp only: i parseFloat_6 parseFloat_1 rd_3048 rd_254 number_mul.simps number_add.simps
        rd_6feet rd_1inch rd_6feet_1inch)
  with m f show ?thesis by (simp add: parseCell_def)
qed

lemma trim_examples:
  "trim (ascii ''1.85 m'') = ascii ''1.85 m''"
  "trim (ascii ''n/a'') = ascii ''n/a''"
  "trim (ascii ''6 ft 1 in'') = ascii ''6 ft 1 in''"
  "trim (ascii ''5 ft'') = ascii ''5 ft''"
  "trim [8212] = [8212]"
  by (simp_all add: trim_def char_defs)

text \<open>
  C1.  For the single table with the rows \<open>["Header"]\<close>, \<open>["1.85 m"]\<close>, \<open>["n/a"]\<close>,
  \<open>["6 ft 1 in"]\<close>, the extraction returns exactly one column, with the header
  \<open>"Height"\<close> and two values: the binary64 number nearest to 1.85, and the binary64 result
  of \<open>6 * 0.3048 + 1 * 0.0254\<close>, which is within \<open>1e-3\<close> of 1.8542.  The row \<open>["n/a"]\<close>
  gives no value, and row 0 is not read.
\<close>

theorem example_table_height_column:
  "extractColumnData
     [[ascii ''Header''], [ascii ''1.85 m''], [ascii ''n/a''], [ascii ''6 ft 1 in'']] =
   Inr [\<lparr>header = ascii ''Height'',
         values = [Finite (4165829655317709 / 2251799813685248),
                   Finite (8350574429070375 / 4503599627370496)]\<rparr>] \<and>
   getColumns (Document
     [[[ascii ''Header''], [ascii ''1.85 m''], [ascii ''n/a''], [ascii ''6 ft 1 in'']]]) =
   Inr [\<lparr>header = ascii ''Height'',
         values = [Finite (4165829655317709 / 2251799813685248),
                   Finite (8350574429070375 / 4503599627370496)]\<rparr>] \<and>
   Finite (4165829655317709 / 2251799813685248) = round_double (185 / 100) \<and>
   approx (1 / 1000) (185 / 100) (Finite (4165829655317709 / 2251799813685248)) \<and>
   approx (1 / 1000) (6 * (3048 / 10000) + 1 * (254 / 10000))
     (Finite (8350574429070375 / 4503599627370496)) \<and>
   6 * (3048 / 10000) + 1 * (254 / 10000) = (18542 / 10000 :: rat)"
proof -
  have e: "extractColumnData
     [[ascii ''Header''], [ascii ''1.85 m''], [ascii ''n/a''], [ascii ''6 ft 1 in'']] =
   Inr [\<lparr>header = ascii ''Height'',
         values = [Finite (4165829655317709 / 2251799813685248),
                   Finite (8350574429070375 / 4503599627370496)]\<rparr>]"
    by (simp add: extractColumnData_def trim_examples cell_185 cell_na cell_6ft1in)
  then have g: "getColumns (Document
     [[[ascii ''Header''], [ascii ''1.85 m''], [ascii ''n/a''], [ascii ''6 ft 1 in'']]]) =
   Inr [\<lparr>header = ascii ''Height'',
         values = [Finite (4165829655317709 / 2251799813685248),
                   Finite (8350574429070375 / 4503599627370496)]\<rparr>]"
    by (simp add: getColumns_def getTables_def)
  have r: "Finite (4165829655317709 / 2251799813685248) = round_double (185 / 100)"
    by (simp only: rd_185)
  have a: "approx (1 / 1000) (185 / 100) (Finite (4165829655317709 / 2251799813685248))"
    "approx (1 / 1000) (6 * (3048 / 10000) + 1 * (254 / 10000))
     (Finite (8350574429070375 / 4503599627370496))"
    "6 * (3048 / 10000) + 1 * (254 / 10000) = (18542 / 10000 :: rat)"
    by (simp_all add: approx_def)
  from e g r a show ?thesis by (simp only: simp_thms)
qed

lemma rd_5: "round_double 5 = Finite 5"
  using round_double_cert [of 2 5 "5 * 2 ^ 50"] by (simp add: pow2_def)

lemma parseFloat_5: "parseFloat [53] = Finite 5"
  using parseFloat_digits [of "[53]"] rd_5 by (simp add: isDigit_def digits_value_def)

lemma rd_5feet:
  "round_double (5 * (5490788665690109 / 18014398509481984)) = Finite (1715871458028159 / 1125899906842624)"
  using round_double_cert [of 0 "5 * (5490788665690109 / 18014398509481984)" 6863485832112636]
  by (simp add: pow2_def)

lemma rd_0inch: "round_double (0 * (3660525777126739 / 144115188075855872)) = Finite 0"
  by (simp add: round_double_def)

lemma rd_5feet_0inch:
  "round_double (1715871458028159 / 1125899906842624 + 0) = Finite (1715871458028159 / 1125899906842624)"
  using round_double_cert [of 0 "1715871458028159 / 1125899906842624" 6863485832112636]
  by (simp add: pow2_def)

lemma rd_1524: "round_double (1524 / 1000) = Finite (1715871458028159 / 1125899906842624)"
  using round_double_cert [of 0 "1524 / 1000" 6863485832112636] by (simp add: pow2_def)

lemma cell_5ft_in:
  "parseCell (ascii ''5 ft in'') = Inr (Some (Finite (1715871458028159 / 1125899906842624)))"
proof -
  have m: "match (ascii ''5 ft in'') METRES_REGEX = None"
    by (simp add: METRES_REGEX_def char_defs)
  have f: "match (ascii ''5 ft in'') FEET_REGEX = Some [1 \<mapsto> [53]]"
    by (simp add: FEET_REGEX_def char_defs)
  have i: "imperialBranch [1 \<mapsto> [53]] =
      number_add (number_mul (parseFloat [53]) (round_double (3048 / 10000)))
        (number_mul (Finite 0) (round_double (254 / 10000)))"
    by (simp add: imperialBranch_def)
  have "imperialBranch [1 \<mapsto> [53]] = Finite (1715871458028159 / 1125899906842624)"
    by (simp only: i parseFloat_5 rd_3048 rd_254 number_mul.simps number_add.simps
        rd_5feet rd_0inch rd_5feet_0inch)
  with m f show ?thesis by (simp add: parseCell_def)
qed

text \<open>
  C2.  What the program does on a cell with feet and no inches: \<open>"5 ft"\<close> matches neither
  pattern (the imperial pattern asks for \<open>in\<close>), so no value is pushed.  For the two tables
  of the example, the first without a match and the second with the only data row
  \<open>["5 ft"]\<close>, \<open>getColumns\<close> returns no column at all and \<open>generateChart\<close> throws, where
  a column with the single value 1.524 is expected.  The branch for absent inches exists
  and gives this value, the binary64 number nearest to 1.524, but only for a text that
  still holds the letters \<open>in\<close>, such as \<open>"5 ft in"\<close>.
\<close>

theorem feet_without_inches_gives_no_column:
  "parseCell (ascii ''5 ft'') = Inr None \<and>
   getColumns (Document [[[ascii ''Header''], [ascii ''n/a'']], [[ascii ''Header''], [ascii ''5 ft'']]]) = Inr [] \<and>
   generateChart (Document [[[ascii ''Header''], [ascii ''n/a'']], [[ascii ''Header''], [ascii ''5 ft'']]]) =
     Inl (Error (ascii ''Failed to generate chart: No numeric columns found in the tables'')) \<and>
   parseCell (ascii ''5 ft in'') = Inr (Some (round_double (1524 / 1000)))"
proof -
  have "getColumns (Document [[[ascii ''Header''], [ascii ''n/a'']], [[ascii ''Header''], [ascii ''5 ft'']]]) = Inr []"
    by (simp add: getColumns_def getTables_def extractColumnData_def trim_examples cell_5ft cell_na)
  moreover from this have "generateChart (Document [[[ascii ''Header''], [ascii ''n/a'']], [[ascii ''Header''], [ascii ''5 ft'']]]) =
     Inl (Error (ascii ''Failed to generate chart: No numeric columns found in the tables''))"
    by (simp add: generateChart_def rethrow_def ascii_def)
  moreover have "parseCell (ascii ''5 ft in'') = Inr (Some (round_double (1524 / 1000)))"
    by (simp only: cell_5ft_in rd_1524)
  ultimately show ?thesis using cell_5ft by (simp only: simp_thms)
qed

section \<open>The unit parser\<close>

lemma lang_feet_in: "p \<in> lang FEET_REGEX \<Longrightarrow> 105 \<in> set p"
  by (auto simp: FEET_REGEX_def)

lemma lang_metres_m: "p \<in> lang METRES_REGEX \<Longrightarrow> 109 \<in> set p"
  by (auto simp: METRES_REGEX_def)

lemma feet_needs_i: "105 \<notin> set s \<Longrightarrow> match s FEET_REGEX = None"
proof (rule ccontr)
  assume s: "105 \<notin> set s" and "match s FEET_REGEX \<noteq> None"
  then obtain caps where "match s FEET_REGEX = Some caps" by auto
  from match_contains [OF this] obtain pre p post
    where "s = pre @ p @ post" "p \<in> lang FEET_REGEX" by blast
  with lang_feet_in [of p] s show False by simp
qed

lemma metres_needs_m: "109 \<notin> set s \<Longrightarrow> match s METRES_REGEX = None"
proof (rule ccontr)
  assume s: "109 \<notin> set s" and "match s METRES_REGEX \<noteq> None"
  then obtain caps where "match s METRES_REGEX = Some caps" by auto
  from match_contains [OF this] obtain pre p post
    where "s = pre @ p @ post" "p \<in> lang METRES_REGEX" by blast
  with lang_metres_m [of p] s show False by simp
qed

text \<open>
  C3.  The imperial pattern asks for the letters \<open>in\<close> also when there are no inches digits:
  for every feet value, written as a non-empty string of digits, followed by any white
  space and \<open>ft\<close> and nothing more, the imperial pattern does not match; the text has no
  \<open>m\<close> either, so the metric pattern does not match, and no value is pushed for the cell.
\<close>

theorem feet_without_in_never_matches:
  assumes "ds \<noteq> []" "list_all isDigit ds" "list_all isWhiteSpace ws"
  shows "match (ds @ ws @ ascii ''ft'') FEET_REGEX = None \<and>
         match (ds @ ws @ ascii ''ft'') METRES_REGEX = None \<and>
         parseCell (ds @ ws @ ascii ''ft'') = Inr None"
proof -
  have d: "c \<noteq> 105 \<and> c \<noteq> 109" if "c \<in> set ds" for c
    using that assms(2) by (auto simp: list_all_iff dest: digit_facts)
  have w: "c \<noteq> 105 \<and> c \<noteq> 109" if "c \<in> set ws" for c
    using that assms(3) by (auto simp: list_all_iff dest: space_facts)
  from d w have i: "105 \<notin> set (ds @ ws @ ascii ''ft'')"
    and m: "109 \<notin> set (ds @ ws @ ascii ''ft'')"
    by (auto simp: ascii_def)
  from i have "match (ds @ ws @ ascii ''ft'') FEET_REGEX = None" by (rule feet_needs_i)
  moreover from m have "match (ds @ ws @ ascii ''ft'') METRES_REGEX = None"
    by (rule metres_needs_m)
  ultimately show ?thesis by (simp add: parseCell_def)
qed

theorem feet_without_in_never_matches_witness:
  "match (ascii ''6 ft'') FEET_REGEX = None \<and>
   match (ascii ''6 ft'') METRES_REGEX = None \<and>
   parseCell (ascii ''6 ft'') = Inr None"
  using feet_without_in_never_matches [of "ascii ''6''" "ascii '' ''"]
  by (simp add: char_defs)

lemma parseCell_skip:
  assumes "\<not> isDigit x"
  shows "parseCell (x # s) = parseCell s"
proof -
  have m: "match (x # s) METRES_REGEX = match s METRES_REGEX"
    using assms by (simp add: metric_no_start)
  have f: "match (x # s) FEET_REGEX = match s FEET_REGEX"
    using assms by (simp add: feet_no_start)
  show ?thesis unfolding parseCell_def m f ..
qed

text \<open>
  C9.  The two decimal separators are equivalent: for all digit strings \<open>d1\<close> and \<open>d2\<close>,
  the cell texts \<open>d1.d2 m\<close> and \<open>d1,d2 m\<close> give the same result.  When \<open>d1\<close> is not empty
  the result is the value pushed, the binary64 number nearest to the decimal number
  \<open>d1.d2\<close>: the comma has been replaced by a dot before the conversion.
\<close>

theorem decimal_separators_equivalent:
  assumes "list_all isDigit d1" "list_all isDigit d2"
  shows "parseCell (d1 @ ascii ''.'' @ d2 @ ascii '' m'') =
           parseCell (d1 @ ascii '','' @ d2 @ ascii '' m'') \<and>
         (d1 \<noteq> [] \<longrightarrow>
           parseCell (d1 @ ascii '','' @ d2 @ ascii '' m'') =
             Inr (Some (round_double
               (of_int (digits_value (d1 @ d2)) * pow10 (- int (length d2))))))"
proof (cases "d1 = []")
  case True
  then show ?thesis by (simp add: ascii_def parseCell_skip isDigit_def)
next
  case False
  have w: "list_all isWhiteSpace [32]" by (simp add: isWhiteSpace_def)
  from parseCell_metric_decimal [OF False assms w, of 46 "[]"]
    parseCell_metric_decimal [OF False assms w, of 44 "[]"]
  show ?thesis using False by (simp add: ascii_def)
qed

theorem decimal_separators_equivalent_witness:
  "parseCell (ascii ''1.85 m'') = parseCell (ascii ''1,85 m'') \<and>
   parseCell (ascii ''1,85 m'') = Inr (Some (round_double (185 / 100)))"
  using decimal_separators_equivalent [of "ascii ''1''" "ascii ''85''"]
  by (simp add: char_defs digits_value_def pow10_def)

lemma cell_2m: "parseCell (ascii ''2 m'') = Inr (Some (Finite 2))"
  using parseCell_metric_digits [of "[50]" "[32]" "[]" "[]"] rd_2
  by (simp add: char_defs digits_value_def)

text \<open>
  C8.  The metric pattern is tried first and wins: whenever it matches a cell text, the
  result is that of the metric branch on this match, a value is pushed, and the imperial
  pattern is not consulted, whether it would match the text or not.  In particular
  \<open>"2 m"\<close> gives 2 metres.
\<close>

theorem metric_before_imperial:
  assumes "match s METRES_REGEX = Some meterValue"
  shows "parseCell s = metricBranch meterValue \<and>
         (\<exists>v. parseCell s = Inr (Some v) \<and> \<not> isNaN v) \<and>
         match (ascii ''2 m'') METRES_REGEX \<noteq> None \<and>
         parseCell (ascii ''2 m'') = Inr (Some (Finite 2))"
proof -
  have 1: "parseCell s = metricBranch meterValue" using assms by (simp add: parseCell_def)
  from metricBranch_emits [OF assms] obtain v where "metricBranch meterValue = Inr (Some v)"
    "nonneg_or_inf v" by blast
  with 1 have 2: "\<exists>v. parseCell s = Inr (Some v) \<and> \<not> isNaN v"
    by (auto simp: isNaN_def dest: nonneg_or_inf_not_NaN)
  have 3: "match (ascii ''2 m'') METRES_REGEX \<noteq> None"
    by (simp add: METRES_REGEX_def char_defs)
  from 1 2 3 cell_2m show ?thesis by simp
qed

theorem metric_before_imperial_witness:
  "match (ascii ''6 ft 1 in 2 m'') METRES_REGEX = Some [1 \<mapsto> ascii ''2''] \<and>
   match (ascii ''6 ft 1 in 2 m'') FEET_REGEX = Some [1 \<mapsto> ascii ''6'', 2 \<mapsto> ascii ''1''] \<and>
   parseCell (ascii ''6 ft 1 in 2 m'') = metricBranch [1 \<mapsto> ascii ''2''] \<and>
   metricBranch [1 \<mapsto> ascii ''2''] = Inr (Some (Finite 2))"
proof -
  have m: "match (ascii ''6 ft 1 in 2 m'') METRES_REGEX = Some [1 \<mapsto> ascii ''2'']"
    by (simp add: METRES_REGEX_def char_defs)
  have f: "match (ascii ''6 ft 1 in 2 m'') FEET_REGEX = Some [1 \<mapsto> ascii ''6'', 2 \<mapsto> ascii ''1'']"
    by (simp add: FEET_REGEX_def char_defs)
  have b: "metricBranch [1 \<mapsto> ascii ''2''] = Inr (Some (Finite 2))"
    using parseFloat_digits [of "[50]"] rd_2
    by (simp add: metricBranch_def char_defs digits_value_def isNaN_def)
  from metric_before_imperial [OF m] m f b show ?thesis by simp
qed

lemma rd_100_cell: "parseCell (ascii ''100 miles'') = Inr (Some (Finite 100))"
  using parseCell_metric_digits [of "ascii ''100''" "[32]" "[]" "ascii ''iles''"] rd_100
  by (simp add: char_defs digits_value_def)

lemma digits_value_zeros: "digits_value (ds @ replicate n 48) = digits_value ds * 10 ^ n"
proof (induction n)
  case 0
  then show ?case by simp
next
  case (Suc n)
  have "digits_value (ds @ replicate (Suc n) 48) = digits_value ((ds @ replicate n 48) @ [48])"
    by (simp add: replicate_append_same)
  also have "\<dots> = 10 * digits_value (ds @ replicate n 48)"
    unfolding digits_value_def foldl_append by simp
  finally show ?case by (simp add: Suc.IH)
qed

text \<open>
  C4, as stated, fails on a cell whose digits are beyond the range of binary64: the digit
  2 followed by 308 zeros, a space and \<open>m\<close> reads as positive infinity, which is not NaN,
  so it is pushed to the column.
\<close>

theorem infinite_value_emitted:
  "parseCell (ascii ''2'' @ replicate 308 (of_char CHR ''0'') @ ascii '' m'') =
     Inr (Some PosInfinity)"
proof -
  let ?ds = "[50] @ replicate 308 48"
  have s: "ascii ''2'' @ replicate 308 (of_char CHR ''0'') @ ascii '' m'' =
      [] @ ?ds @ [32] @ 109 # []" by (simp add: ascii_def)
  have v: "rat_of_int (digits_value ?ds) = 2 * 10 ^ 308"
    unfolding digits_value_zeros by (simp add: digits_value_def)
  have "parseCell ([] @ ?ds @ [32] @ 109 # []) = Inr (Some (round_double (of_int (digits_value ?ds))))"
    by (rule parseCell_metric_digits) (simp_all add: char_defs list_all_iff)
  then show ?thesis unfolding s v rd_big .
qed

section \<open>The row scanner, the columns and the chart\<close>






text \<open>
  C6.  No returned column is empty.  Whenever \<open>getColumns\<close> returns, every column has
  the header \<open>"Height"\<close> and at least one value.  For every non-empty sequence of tables
  it returns, in table order, one column for each table whose scan gives a value and none
  for the other tables; the values of a column are those of the scan of its table, that
  is, the values of the first cells of the rows after row 0 that parse, in row order.
\<close>

theorem no_empty_column:
  "(getColumns p = Inr columns \<longrightarrow>
      (\<forall>c\<in>set columns. values c \<noteq> [] \<and> header c = ascii ''Height'')) \<and>
   (ts \<noteq> [] \<longrightarrow>
      getColumns (Document ts) =
        Inr (map (\<lambda>t. \<lparr>header = ascii ''Height'', values = scan t\<rparr>)
               (filter (\<lambda>t. scan t \<noteq> []) ts))) \<and>
   scan t = List.map_filter firstCellValue (drop 1 t)"
proof -
  have 1: "\<forall>c\<in>set columns. values c \<noteq> [] \<and> header c = ascii ''Height''"
    if g: "getColumns p = Inr columns"
  proof -
    from g obtain ts where "p = Document ts" "ts \<noteq> []"
      by (cases p) (auto simp: getColumns_def getTables_def split: if_splits)
    with g getColumns_Document [of ts] have "columns =
        map (\<lambda>t. \<lparr>header = ascii ''Height'', values = scan t\<rparr>) (filter (\<lambda>t. scan t \<noteq> []) ts)"
      by simp
    then show ?thesis by auto
  qed
  from 1 getColumns_Document [of ts] show ?thesis by (simp add: scan_def)
qed

theorem no_empty_column_witness:
  "getColumns (Document [[[ascii ''Header''], [ascii ''n/a'']],
      [[ascii ''Header''], [ascii ''1.85 m''], [ascii ''n/a''], [ascii ''6 ft 1 in'']]]) =
     Inr [\<lparr>header = ascii ''Height'',
           values = [Finite (4165829655317709 / 2251799813685248),
                     Finite (8350574429070375 / 4503599627370496)]\<rparr>] \<and>
   values \<lparr>header = ascii ''Height'',
           values = [Finite (4165829655317709 / 2251799813685248),
                     Finite (8350574429070375 / 4503599627370496)]\<rparr> \<noteq> [] \<and>
   scan [[ascii ''Header''], [ascii ''n/a'']] = [] \<and>
   scan [[ascii ''Header''], [ascii ''1.85 m''], [ascii ''n/a''], [ascii ''6 ft 1 in'']] =
     [Finite (4165829655317709 / 2251799813685248), Finite (8350574429070375 / 4503599627370496)]"
proof -
  let ?t1 = "[[ascii ''Header''], [ascii ''n/a'']]"
  let ?t2 = "[[ascii ''Header''], [ascii ''1.85 m''], [ascii ''n/a''], [ascii ''6 ft 1 in'']]"
  have f: "firstCellValue [ascii ''n/a''] = None"
    "firstCellValue [ascii ''1.85 m''] = Some (Finite (4165829655317709 / 2251799813685248))"
    "firstCellValue [ascii ''6 ft 1 in''] = Some (Finite (8350574429070375 / 4503599627370496))"
    by (simp_all add: firstCellValue_def trim_examples cell_na cell_185 cell_6ft1in)
  have s: "scan ?t1 = []"
    "scan ?t2 = [Finite (4165829655317709 / 2251799813685248), Finite (8350574429070375 / 4503599627370496)]"
    by (simp_all add: scan_def List.map_filter_simps f)
  have g: "getColumns (Document [?t1, ?t2]) =
     Inr [\<lparr>header = ascii ''Height'',
           values = [Finite (4165829655317709 / 2251799813685248),
                     Finite (8350574429070375 / 4503599627370496)]\<rparr>]"
    by (simp add: getColumns_Document s)
  from no_empty_column [of "Document [?t1, ?t2]"
      "[\<lparr>header = ascii ''Height'',
           values = [Finite (4165829655317709 / 2251799813685248),
                     Finite (8350574429070375 / 4503599627370496)]\<rparr>]" "[?t1, ?t2]" ?t2] g s
  show ?thesis by (simp add: f)
qed



section \<open>The overflow threshold\<close>

lemma round_half_even_le:
  assumes "x \<le> of_int k"
  shows "round_half_even x \<le> k"
proof (cases "x = of_int k")
  case True
  then show ?thesis by (simp add: round_half_even_def Let_def)
next
  case False
  with assms have "x < of_int k" by simp
  then have "\<lfloor>x\<rfloor> < k" by (simp add: floor_less_iff)
  then show ?thesis by (auto simp add: round_half_even_def Let_def)
qed

lemma round_half_even_below_half:
  assumes "x < of_int k - 1 / 2"
  shows "round_half_even x \<le> k - 1"
proof -
  from assms have "x < of_int k" by simp
  then have f: "\<lfloor>x\<rfloor> \<le> k - 1" by (simp add: floor_less_iff)
  show ?thesis
  proof (cases "\<lfloor>x\<rfloor> = k - 1")
    case True
    with assms have "x - of_int \<lfloor>x\<rfloor> < 1 / 2" by simp
    with True show ?thesis by (simp add: round_half_even_def Let_def)
  next
    case False
    with f have "\<lfloor>x\<rfloor> + 1 \<le> k - 1" by simp
    then show ?thesis by (auto simp add: round_half_even_def Let_def)
  qed
qed

lemma round_half_even_from_half:
  assumes "of_int k - 1 / 2 \<le> x" "even k"
  shows "k \<le> round_half_even x"
proof (cases "of_int k \<le> x")
  case True
  then show ?thesis by (rule round_half_even_ge)
next
  case False
  with assms(1) have f: "\<lfloor>x\<rfloor> = k - 1" by (intro floor_unique) auto
  with assms(2) have o: "odd \<lfloor>x\<rfloor>" by simp
  from f assms(1) have "1 / 2 \<le> x - of_int \<lfloor>x\<rfloor>" by simp
  with f o show ?thesis by (auto simp add: round_half_even_def Let_def)
qed

lemma pow2_le: "pow2 e \<le> pow2 e' \<Longrightarrow> e \<le> e'"
  using pow2_less [of e' "e + 1"] pow2_mono [of "e' + 1" e] pow2_add [of e' 1] pow2_pos [of e']
  by (cases "e \<le> e'") (auto simp: pow2_def [of 1])

lemma pow2_of_int: "0 \<le> e \<Longrightarrow> pow2 e = of_int (2 ^ nat e)"
  by (simp add: pow2_def)

lemma pow2_diff_mult: "pow2 (k - e) * pow2 e = pow2 k"
  by (simp add: pow2_add [symmetric])

text \<open>Up to a power of two that binary64 has, rounding gives a finite number up to it.\<close>

lemma round_double_le_pow2:
  assumes "0 \<le> x" "x \<le> pow2 k" "- 1022 \<le> k" "k \<le> 1023"
  shows "\<exists>r. round_double x = Finite r \<and> 0 \<le> r \<and> r \<le> pow2 k"
proof (cases "x = 0")
  case True
  then show ?thesis using pow2_pos [of k] by (simp add: round_double_def)
next
  case False
  with assms(1) have x: "0 < x" by simp
  from ilog2_bounds [OF x] have "pow2 (ilog2 x) \<le> x" by simp
  with assms(2) have "pow2 (ilog2 x) \<le> pow2 k" by simp
  then have l: "ilog2 x \<le> k" by (rule pow2_le)
  define e where "e = max (ilog2 x) (- 1022)"
  from l assms(3) have e: "e \<le> k" by (simp add: e_def)
  let ?u = "pow2 (e - 52)"
  have u: "0 < ?u" by (rule pow2_pos)
  define n where "n = round_half_even (x / ?u)"
  have "x / ?u \<le> pow2 k / ?u" using assms(2) u by (simp add: divide_right_mono)
  also have "pow2 k / ?u = pow2 (k - (e - 52))"
    using pow2_diff_mult [of k "e - 52"] u by (simp add: field_simps)
  also have "\<dots> = of_int (2 ^ nat (k - (e - 52)))" using e by (intro pow2_of_int) simp
  finally have "n \<le> 2 ^ nat (k - (e - 52))" unfolding n_def by (rule round_half_even_le)
  then have "(of_int n :: rat) \<le> of_int (2 ^ nat (k - (e - 52)))" by (simp only: of_int_le_iff)
  also have "\<dots> = pow2 (k - (e - 52))" using e by (intro pow2_of_int [symmetric]) simp
  finally have "of_int n * ?u \<le> pow2 (k - (e - 52)) * ?u"
    using u by (simp only: mult_le_cancel_right_pos)
  then have r: "of_int n * ?u \<le> pow2 k" by (simp only: pow2_diff_mult)
  have "0 \<le> x / ?u" using x u by simp
  then have "of_int 0 \<le> x / ?u" by simp
  then have "0 \<le> n" unfolding n_def by (rule round_half_even_ge)
  with u have p: "0 \<le> of_int n * ?u" by simp
  have "pow2 k < pow2 1024" using assms(4) pow2_mono [of k 1023] by (simp add: pow2_def)
  with r have "\<not> pow2 1024 \<le> of_int n * ?u" by simp
  with x r p show ?thesis by (simp add: round_double_def Let_def e_def [symmetric] n_def [symmetric])
qed

text \<open>
  From \<open>pow2 1024 - pow2 970\<close> on, half a unit in the last place above the largest finite
  binary64 number, rounding gives infinity; below it, a finite number.
\<close>

lemma round_double_below_threshold:
  assumes "0 \<le> x" "x < pow2 1024 - pow2 970"
  shows "\<exists>r. round_double x = Finite r \<and> 0 \<le> r \<and> r < pow2 1024"
proof (cases "x \<le> pow2 1023")
  case True
  from round_double_le_pow2 [OF assms(1) True] obtain r
    where "round_double x = Finite r" "0 \<le> r" "r \<le> pow2 1023" by auto
  moreover have "pow2 1023 < pow2 1024" by (simp add: pow2_def)
  ultimately show ?thesis by auto
next
  case False
  then have lo: "pow2 1023 \<le> x" and x: "0 < x" using pow2_pos [of 1023] by auto
  have "x < pow2 (1023 + 1)" using assms(2) pow2_pos [of 970] by simp
  with lo have e: "ilog2 x = 1023" by (rule ilog2_eqI)
  have u: "(0::rat) < pow2 971" by (rule pow2_pos)
  have "x / pow2 971 < (pow2 1024 - pow2 970) / pow2 971"
    using assms(2) u by (simp add: divide_strict_right_mono)
  also have "(pow2 1024 - pow2 970) / pow2 971 = of_int (2 ^ 53) - 1 / 2"
    by (simp add: pow2_def)
  finally have "round_half_even (x / pow2 971) \<le> 2 ^ 53 - 1" by (rule round_half_even_below_half)
  then have "(of_int (round_half_even (x / pow2 971)) :: rat) \<le> of_int (2 ^ 53 - 1)"
    by (simp only: of_int_le_iff)
  then have "of_int (round_half_even (x / pow2 971)) * pow2 971 \<le> of_int (2 ^ 53 - 1) * pow2 971"
    using u by (simp only: mult_le_cancel_right_pos)
  also have "of_int (2 ^ 53 - 1) * pow2 971 < pow2 1024" by (simp add: pow2_def)
  finally have r: "of_int (round_half_even (x / pow2 971)) * pow2 971 < pow2 1024" .
  have "0 \<le> x / pow2 971" using x u by simp
  then have "of_int 0 \<le> x / pow2 971" by simp
  then have "0 \<le> round_half_even (x / pow2 971)" by (rule round_half_even_ge)
  with u have "0 \<le> of_int (round_half_even (x / pow2 971)) * pow2 971" by simp
  with x r show ?thesis by (simp add: round_double_def Let_def e)
qed

lemma round_double_from_threshold:
  assumes "pow2 1024 - pow2 970 \<le> x"
  shows "round_double x = PosInfinity"
proof (cases "pow2 1024 \<le> x")
  case True
  then show ?thesis by (rule round_double_overflow)
next
  case False
  have "pow2 1023 \<le> pow2 1024 - pow2 970" by (simp add: pow2_def)
  with assms have lo: "pow2 1023 \<le> x" by simp
  with pow2_pos [of 1023] have x: "0 < x" by simp
  from False have "x < pow2 (1023 + 1)" by simp
  with lo have e: "ilog2 x = 1023" by (rule ilog2_eqI)
  have u: "(0::rat) < pow2 971" by (rule pow2_pos)
  have "(pow2 1024 - pow2 970) / pow2 971 \<le> x / pow2 971"
    using assms u by (simp add: divide_right_mono)
  moreover have "(pow2 1024 - pow2 970) / pow2 971 = of_int (2 ^ 53) - 1 / 2"
    by (simp add: pow2_def)
  ultimately have "of_int (2 ^ 53) - 1 / 2 \<le> x / pow2 971" by simp
  then have "2 ^ 53 \<le> round_half_even (x / pow2 971)" by (rule round_half_even_from_half) simp
  then have "(of_int (2 ^ 53) :: rat) \<le> of_int (round_half_even (x / pow2 971))"
    by (simp only: of_int_le_iff)
  then have "of_int (2 ^ 53) * pow2 971 \<le> of_int (round_half_even (x / pow2 971)) * pow2 971"
    using u by (simp only: mult_le_cancel_right_pos)
  moreover have "of_int (2 ^ 53) * pow2 971 = pow2 1024" by (simp add: pow2_def)
  ultimately have "pow2 1024 \<le> of_int (round_half_even (x / pow2 971)) * pow2 971" by simp
  with x show ?thesis by (simp add: round_double_def Let_def e)
qed

section \<open>Values of the captured digits\<close>

lemma rd_0: "round_double 0 = Finite 0"
  by (simp add: round_double_def)

lemma decimal_value_digits:
  assumes "list_all isDigit d1"
  shows "decimal_value d1 = of_int (digits_value d1)"
proof -
  from assms have t: "takeWhile isDigit d1 = d1" "dropWhile isDigit d1 = []"
    by (simp_all add: list_all_iff)
  show ?thesis unfolding decimal_value_def Let_def t by (simp add: pow10_def)
qed

lemma decimal_value_fraction:
  assumes "list_all isDigit d1" "\<not> isDigit x"
  shows "decimal_value (d1 @ x # d2) = of_int (digits_value (d1 @ d2)) * pow10 (- int (length d2))"
  using assms by (simp add: decimal_value_def Let_def takeWhile_run dropWhile_run)

lemma metric_group_value:
  assumes "p \<in> lang (Seq (Plus Digit) (Seq (Opt (Atom (OneOf ''.,''))) (Star Digit)))"
  shows "parseFloat (replace p 44 46) = round_double (decimal_value p) \<and> 0 \<le> decimal_value p"
proof -
  from metric_group_shape [OF assms] obtain d1 d2
    where d: "d1 \<noteq> []" "list_all isDigit d1" "list_all isDigit d2"
      and p: "p = d1 \<or> p = d1 @ 46 # d2 \<or> p = d1 @ 44 # d2" by blast
  have q1: "0 \<le> rat_of_int (digits_value d1)" using d(2) by (simp add: digits_value_nonneg)
  have q2: "0 \<le> rat_of_int (digits_value (d1 @ d2)) * pow10 (- int (length d2))"
    using d(2,3) pow10_pos [of "- int (length d2)"] by (simp add: digits_value_nonneg)
  from p show ?thesis
  proof (elim disjE)
    assume "p = d1"
    with d q1 show ?thesis by (simp add: replace_digits parseFloat_digits decimal_value_digits)
  next
    assume "p = d1 @ 46 # d2"
    with d q2 show ?thesis
      by (simp add: replace_dot parseFloat_decimal decimal_value_fraction isDigit_def)
  next
    assume "p = d1 @ 44 # d2"
    with d q2 show ?thesis
      by (simp add: replace_comma parseFloat_decimal decimal_value_fraction isDigit_def)
  qed
qed

lemma run_group_first_split:
  assumes "(caps', s') \<in> set (run (Seq (Group i g) r) (caps, s))" and "group_lang r i = {}"
  shows "\<exists>p w. p \<in> lang g \<and> w \<in> lang r \<and> caps' i = Some p \<and> s = p @ w @ s'"
proof -
  from assms(1) have "\<exists>st\<in>set (run (Group i g) (caps, s)). (caps', s') \<in> set (run r st)"
    unfolding run.simps(5) by (simp del: run.simps)
  then obtain c1 s1 where 1: "(c1, s1) \<in> set (run (Group i g) (caps, s))"
    and 2: "(caps', s') \<in> set (run r (c1, s1))" by (auto simp del: run.simps)
  from 1 obtain c0 where 0: "(c0, s1) \<in> set (run g (caps, s))"
    and c: "c1 = c0(i \<mapsto> take (length s - length s1) s)" by auto
  from run_sound [OF 0] obtain p where p: "p \<in> lang g" "s = p @ s1" by blast
  then have "take (length s - length s1) s = p" by simp
  with c have "c1 i = Some p" by simp
  moreover from run_caps [OF 2, of i] assms(2) have "caps' i = c1 i" by simp
  moreover from run_sound [OF 2] obtain w where "w \<in> lang r" "s1 = w @ s'" by blast
  ultimately show ?thesis using p by auto
qed

lemma match_Some_leftmost:
  "match s r = Some caps \<Longrightarrow>
   \<exists>pre t rest others. s = pre @ t \<and> run r (Map.empty, t) = (caps, rest) # others \<and>
     (\<forall>k<length pre. run r (Map.empty, drop k s) = [])"
proof (induction s)
  case Nil
  then show ?case by (auto split: list.splits)
next
  case (Cons x xs)
  show ?case
  proof (cases "run r (Map.empty, x # xs)")
    case Nil
    with Cons.prems have "match xs r = Some caps" by simp
    with Cons.IH obtain pre t rest others where 1: "xs = pre @ t"
      "run r (Map.empty, t) = (caps, rest) # others"
      "\<forall>k<length pre. run r (Map.empty, drop k xs) = []"
      by blast
    have "run r (Map.empty, drop k (x # xs)) = []" if "k < length (x # pre)" for k
      using that Nil 1(3) by (cases k) auto
    with 1 have "x # xs = (x # pre) @ t \<and> run r (Map.empty, t) = (caps, rest) # others \<and>
      (\<forall>k<length (x # pre). run r (Map.empty, drop k (x # xs)) = [])" by simp
    then show ?thesis by blast
  next
    case (Cons a list)
    with Cons.prems have "run r (Map.empty, x # xs) = (caps, snd a) # list"
      by (cases a) auto
    then have "x # xs = [] @ (x # xs) \<and> run r (Map.empty, x # xs) = (caps, snd a) # list \<and>
      (\<forall>k<length ([]::jsstring). run r (Map.empty, drop k (x # xs)) = [])" by simp
    then show ?thesis by blast
  qed
qed

lemma lang_unit: "w \<in> lang (Seq (Star Space) (Atom (Lit CHR ''m''))) \<Longrightarrow>
  \<exists>sp. w = sp @ [109] \<and> list_all isWhiteSpace sp"
  by (auto simp: list_all_iff)

text \<open>
  What a match of the metric pattern gives: the text splits into what stands before the
  match, the captured number, white space, the \<open>m\<close> and what follows; the pattern matches
  at no earlier position; the number is converted and pushed.
\<close>

lemma metric_match_value:
  assumes "match s METRES_REGEX = Some meterValue"
  shows "\<exists>before g sp after.
           s = before @ g @ sp @ ascii ''m'' @ after \<and> list_all isWhiteSpace sp \<and>
           g \<in> lang (Seq (Plus Digit) (Seq (Opt (Atom (OneOf ''.,''))) (Star Digit))) \<and>
           (\<forall>k<length before. run METRES_REGEX (Map.empty, drop k s) = []) \<and>
           meterValue 1 = Some g \<and> 0 \<le> decimal_value g \<and>
           metricBranch meterValue = Inr (Some (round_double (decimal_value g))) \<and>
           parseCell s = Inr (Some (round_double (decimal_value g)))"
proof -
  from match_Some_leftmost [OF assms] obtain before t rest others
    where s: "s = before @ t" and r: "run METRES_REGEX (Map.empty, t) = (meterValue, rest) # others"
      and l: "\<forall>k<length before. run METRES_REGEX (Map.empty, drop k s) = []" by blast
  from r have "(meterValue, rest) \<in> set (run METRES_REGEX (Map.empty, t))" by simp
  then have "\<exists>p w. p \<in> lang (Seq (Plus Digit) (Seq (Opt (Atom (OneOf ''.,''))) (Star Digit))) \<and>
      w \<in> lang (Seq (Star Space) (Atom (Lit CHR ''m''))) \<and> meterValue 1 = Some p \<and> t = p @ w @ rest"
    unfolding METRES_REGEX_def by (rule run_group_first_split) simp
  then obtain g w where g: "g \<in> lang (Seq (Plus Digit) (Seq (Opt (Atom (OneOf ''.,''))) (Star Digit)))"
    and w: "w \<in> lang (Seq (Star Space) (Atom (Lit CHR ''m'')))"
    and c: "meterValue 1 = Some g" and t: "t = g @ w @ rest" by blast
  from lang_unit [OF w] obtain sp where sp: "w = sp @ [109]" "list_all isWhiteSpace sp" by blast
  from metric_group_value [OF g] have v: "parseFloat (replace g 44 46) = round_double (decimal_value g)"
    "0 \<le> decimal_value g" by auto
  from v(2) have "nonneg_or_inf (round_double (decimal_value g))" by (rule nonneg_or_inf_round)
  then have "round_double (decimal_value g) \<noteq> NaN" by (rule nonneg_or_inf_not_NaN)
  with c v(1) have b: "metricBranch meterValue = Inr (Some (round_double (decimal_value g)))"
    by (simp add: metricBranch_def isNaN_def)
  with assms have p: "parseCell s = Inr (Some (round_double (decimal_value g)))"
    by (simp add: parseCell_def)
  from s t sp have "s = before @ g @ sp @ ascii ''m'' @ rest" by (simp add: ascii_def)
  with sp(2) g l c v(2) b p show ?thesis by blast
qed

lemma round_double_finite_iff:
  assumes "0 \<le> x"
  shows "(round_double x = PosInfinity \<longleftrightarrow> overflow_threshold \<le> x) \<and>
         (finite_nonneg (round_double x) \<longleftrightarrow> x < overflow_threshold)"
proof (cases "overflow_threshold \<le> x")
  case True
  then have "round_double x = PosInfinity"
    unfolding overflow_threshold_def by (rule round_double_from_threshold)
  with True show ?thesis by (simp add: finite_nonneg_def)
next
  case False
  then have "x < pow2 1024 - pow2 970" by (simp add: overflow_threshold_def)
  from round_double_below_threshold [OF assms this] obtain r
    where "round_double x = Finite r" "0 \<le> r" by auto
  with False show ?thesis by (simp add: finite_nonneg_def)
qed

text \<open>The sum of the imperial branch, for feet and inches read from digits.\<close>

lemma imperial_sum:
  assumes "0 \<le> F" "0 \<le> I"
  defines "v \<equiv> number_add (number_mul (round_double F) (round_double (3048 / 10000)))
                 (number_mul (round_double I) (round_double (254 / 10000)))"
  shows "nonneg_or_inf v \<and>
         (v = PosInfinity \<longleftrightarrow> overflow_threshold \<le> F \<or> overflow_threshold \<le> I) \<and>
         (finite_nonneg v \<longleftrightarrow> F < overflow_threshold \<and> I < overflow_threshold)"
proof -
  let ?c1 = "5490788665690109 / 18014398509481984 :: rat"
  let ?c2 = "3660525777126739 / 144115188075855872 :: rat"
  have v: "v = number_add (number_mul (round_double F) (Finite ?c1))
                 (number_mul (round_double I) (Finite ?c2))"
    unfolding v_def rd_3048 rd_254 ..
  have T: "pow2 1023 + pow2 1019 < pow2 1024 - pow2 970" by (simp add: pow2_def)
  have small: "\<exists>a. number_mul (round_double x) (Finite c) = Finite a \<and> 0 \<le> a \<and> a \<le> pow2 k"
    if h: "0 \<le> x" "x < overflow_threshold" "0 < c" "c * pow2 1024 \<le> pow2 k" "- 1022 \<le> k" "k \<le> 1023"
    for x c k
  proof -
    from h(2) have "x < pow2 1024 - pow2 970" by (simp add: overflow_threshold_def)
    from round_double_below_threshold [OF h(1) this] obtain f
      where f: "round_double x = Finite f" "0 \<le> f" "f < pow2 1024" by auto
    from f(2,3) h(3) have "f * c \<le> c * pow2 1024" by (simp add: mult.commute)
    with h(4) have "f * c \<le> pow2 k" by simp
    moreover from f(2) h(3) have "0 \<le> f * c" by simp
    ultimately obtain a where "round_double (f * c) = Finite a" "0 \<le> a" "a \<le> pow2 k"
      using round_double_le_pow2 [of "f * c" k] h(5,6) by auto
    with f(1) show ?thesis by simp
  qed
  have big: "number_mul (round_double x) (Finite c) = PosInfinity"
    if "overflow_threshold \<le> x" "0 < c" for x c
  proof -
    from that(1) have "round_double x = PosInfinity"
      unfolding overflow_threshold_def by (rule round_double_from_threshold)
    with that(2) show ?thesis by simp
  qed
  have nn: "nonneg_or_inf (number_mul (round_double x) (Finite c))" if "0 \<le> x" "0 < c" for x c
    using that by (intro nonneg_or_inf_mul nonneg_or_inf_round)
  show ?thesis
  proof (cases "overflow_threshold \<le> F")
    case True
    from big [OF True, of ?c1] have 1: "number_mul (round_double F) (Finite ?c1) = PosInfinity"
      by simp
    from nn [OF assms(2), of ?c2]
    have "nonneg_or_inf (number_mul (round_double I) (Finite ?c2))" by simp
    then have "number_add PosInfinity (number_mul (round_double I) (Finite ?c2)) = PosInfinity"
      by (cases "number_mul (round_double I) (Finite ?c2)") (simp_all add: nonneg_or_inf_def)
    with v 1 have "v = PosInfinity" by simp
    with True show ?thesis by (simp add: nonneg_or_inf_def finite_nonneg_def)
  next
    case False
    then have F: "F < overflow_threshold" by simp
    from small [OF assms(1) F, of ?c1 1023] obtain a
      where a: "number_mul (round_double F) (Finite ?c1) = Finite a" "0 \<le> a" "a \<le> pow2 1023"
      by (auto simp: pow2_def)
    show ?thesis
    proof (cases "overflow_threshold \<le> I")
      case True
      from big [OF True, of ?c2] have "number_mul (round_double I) (Finite ?c2) = PosInfinity"
        by simp
      with v a(1) have "v = PosInfinity" by simp
      with True show ?thesis by (simp add: nonneg_or_inf_def finite_nonneg_def)
    next
      case False
      then have I: "I < overflow_threshold" by simp
      from small [OF assms(2) I, of ?c2 1019] obtain b
        where b: "number_mul (round_double I) (Finite ?c2) = Finite b" "0 \<le> b" "b \<le> pow2 1019"
        by (auto simp: pow2_def)
      from a b T have "0 \<le> a + b" "a + b < pow2 1024 - pow2 970" by simp_all
      from round_double_below_threshold [OF this] obtain r
        where "round_double (a + b) = Finite r" "0 \<le> r" by auto
      with v a(1) b(1) have "v = Finite r" "0 \<le> r" by simp_all
      with F I show ?thesis by (simp add: nonneg_or_inf_def finite_nonneg_def)
    qed
  qed
qed

lemma imperial_match_value:
  assumes "match s FEET_REGEX = Some feetValue"
  shows "(\<exists>g. feetValue 1 = Some g \<and> g \<noteq> [] \<and> list_all isDigit g) \<and>
         (feetValue 2 = None \<or> (\<exists>g. feetValue 2 = Some g \<and> g \<noteq> [] \<and> list_all isDigit g)) \<and>
         nonneg_or_inf (imperialBranch feetValue) \<and>
         (imperialBranch feetValue = PosInfinity \<longleftrightarrow>
            overflow_threshold \<le> captured_digits (feetValue 1) \<or>
            overflow_threshold \<le> captured_digits (feetValue 2)) \<and>
         (finite_nonneg (imperialBranch feetValue) \<longleftrightarrow>
            captured_digits (feetValue 1) < overflow_threshold \<and>
            captured_digits (feetValue 2) < overflow_threshold)"
proof -
  from feet_match_groups [OF assms] obtain g1
    where 1: "feetValue 1 = Some g1" "g1 \<noteq> []" "list_all isDigit g1"
      and 2: "feetValue 2 = None \<or> (\<exists>g. feetValue 2 = Some g \<and> g \<noteq> [] \<and> list_all isDigit g)"
    by blast
  have F: "0 \<le> captured_digits (feetValue 1)"
    using 1 by (simp add: captured_digits_def digits_value_nonneg)
  have I: "0 \<le> captured_digits (feetValue 2)"
    using 2 by (auto simp: captured_digits_def digits_value_nonneg)
  have feet: "parseFloat (case feetValue 1 of None \<Rightarrow> ascii ''undefined'' | Some g \<Rightarrow> g) =
      round_double (captured_digits (feetValue 1))"
    using 1 by (simp add: captured_digits_def parseFloat_digits)
  have inches: "(case feetValue 2 of None \<Rightarrow> Finite 0
      | Some g \<Rightarrow> if g = [] then Finite 0 else parseFloat g) =
      round_double (captured_digits (feetValue 2))"
    using 2 by (auto simp: captured_digits_def parseFloat_digits rd_0)
  have "imperialBranch feetValue =
      number_add (number_mul (round_double (captured_digits (feetValue 1))) (round_double (3048 / 10000)))
        (number_mul (round_double (captured_digits (feetValue 2))) (round_double (254 / 10000)))"
    unfolding imperialBranch_def Let_def feet inches ..
  with imperial_sum [OF F I] 1 2 show ?thesis by simp
qed

lemma run_caps_length:
  "(caps', s') \<in> set (run r (caps, s)) \<Longrightarrow>
   caps' i = caps i \<or> (\<exists>p. caps' i = Some p \<and> length p \<le> length s)"
proof (induction r arbitrary: caps s caps' s')
  case (Atom c)
  then show ?case by (auto split: list.splits if_splits)
next
  case (Star c)
  then show ?case by auto
next
  case (Plus c)
  then show ?case by (auto split: list.splits if_splits)
next
  case (Opt r)
  from Opt.prems have "(caps', s') \<in> set (run r (caps, s)) \<or> caps' = caps" by auto
  then show ?case using Opt.IH by auto
next
  case (Seq a b)
  then obtain c1 s1 where 1: "(c1, s1) \<in> set (run a (caps, s))"
    and 2: "(caps', s') \<in> set (run b (c1, s1))" by auto
  from run_sound [OF 1] have "length s1 \<le> length s" by auto
  with Seq.IH(1) [OF 1] Seq.IH(2) [OF 2] show ?case by force
next
  case (Group j r)
  then obtain c0 where 0: "(c0, s') \<in> set (run r (caps, s))"
    and c: "caps' = c0(j \<mapsto> take (length s - length s') s)" by auto
  show ?case
  proof (cases "i = j")
    case True
    with c show ?thesis by simp
  next
    case False
    with c Group.IH [OF 0] show ?thesis by auto
  qed
qed

lemma match_caps_length:
  assumes "match s r = Some caps" "caps i = Some p"
  shows "length p \<le> length s"
proof -
  from match_Some [OF assms(1)] obtain pre t rest
    where s: "s = pre @ t" and r: "(caps, rest) \<in> set (run r (Map.empty, t))" by blast
  from run_caps_length [OF r, of i] assms(2) have "length p \<le> length t" by auto
  with s show ?thesis by simp
qed

lemma digits_value_less:
  "list_all isDigit ds \<Longrightarrow> digits_value ds < 10 ^ length ds"
proof (induction ds rule: rev_induct)
  case Nil
  then show ?case by (simp add: digits_value_def)
next
  case (snoc c ds)
  then have "digits_value ds + 1 \<le> 10 ^ length ds" and "int c - 48 \<le> 9"
    by (auto simp: isDigit_def)
  then show ?case by (simp add: digits_value_def)
qed

lemma pow10_power_le: "n \<le> 308 \<Longrightarrow> (10::rat) ^ n < overflow_threshold"
proof -
  assume "n \<le> 308"
  then have "(10::rat) ^ n \<le> 10 ^ 308" by (intro power_increasing) simp_all
  also have "\<dots> < overflow_threshold" by (simp add: overflow_threshold_def pow2_def)
  finally show ?thesis .
qed

lemma digits_in_range:
  assumes "list_all isDigit ds" "length ds \<le> 308"
  shows "rat_of_int (digits_value ds) < overflow_threshold"
proof -
  from digits_value_less [OF assms(1)]
  have "rat_of_int (digits_value ds) < of_int (10 ^ length ds)" by (simp only: of_int_less_iff)
  also have "\<dots> = 10 ^ length ds" by simp
  also have "\<dots> < overflow_threshold" using assms(2) by (rule pow10_power_le)
  finally show ?thesis .
qed

lemma decimal_in_range:
  assumes "g \<in> lang (Seq (Plus Digit) (Seq (Opt (Atom (OneOf ''.,''))) (Star Digit)))"
    and "length g \<le> 308"
  shows "decimal_value g < overflow_threshold"
proof -
  from metric_group_shape [OF assms(1)] obtain d1 d2
    where d: "d1 \<noteq> []" "list_all isDigit d1" "list_all isDigit d2"
      and p: "g = d1 \<or> g = d1 @ 46 # d2 \<or> g = d1 @ 44 # d2" by blast
  have frac: "decimal_value (d1 @ x # d2) < overflow_threshold"
    if x: "\<not> isDigit x" and l: "length (d1 @ x # d2) \<le> 308" for x
  proof -
    have "0 \<le> rat_of_int (digits_value (d1 @ d2))" using d(2,3) by (simp add: digits_value_nonneg)
    moreover have "pow10 (- int (length d2)) \<le> 1" by (simp add: pow10_def)
    ultimately have "rat_of_int (digits_value (d1 @ d2)) * pow10 (- int (length d2)) \<le>
        rat_of_int (digits_value (d1 @ d2))"
      using mult_left_mono [of "pow10 (- int (length d2))" 1 "rat_of_int (digits_value (d1 @ d2))"]
      by simp
    also have "\<dots> < overflow_threshold" using d(2,3) l by (intro digits_in_range) simp_all
    finally show ?thesis using d(2) x by (simp add: decimal_value_fraction)
  qed
  from p show ?thesis
  proof (elim disjE)
    assume "g = d1"
    with d(2) assms(2) show ?thesis by (simp add: decimal_value_digits digits_in_range)
  next
    assume "g = d1 @ 46 # d2"
    with frac [of 46] assms(2) show ?thesis by (simp add: isDigit_def)
  next
    assume "g = d1 @ 44 # d2"
    with frac [of 44] assms(2) show ?thesis by (simp add: isDigit_def)
  qed
qed

text \<open>A cell text of at most 308 code units gives finite values only.\<close>

lemma parseCell_short_finite:
  assumes "length s \<le> 308" "parseCell s = Inr (Some v)"
  shows "finite_nonneg v"
proof (cases "match s METRES_REGEX")
  case (Some meterValue)
  from metric_match_value [OF Some] obtain before g sp after
    where s: "s = before @ g @ sp @ ascii ''m'' @ after"
      and g: "g \<in> lang (Seq (Plus Digit) (Seq (Opt (Atom (OneOf ''.,''))) (Star Digit)))"
      and n: "0 \<le> decimal_value g"
      and p: "parseCell s = Inr (Some (round_double (decimal_value g)))" by blast
  from s assms(1) have "length g \<le> 308" by simp
  with g have "decimal_value g < overflow_threshold" by (rule decimal_in_range)
  with round_double_finite_iff [OF n] p assms(2) show ?thesis by simp
next
  case None
  with assms(2) obtain feetValue where f: "match s FEET_REGEX = Some feetValue"
    and v: "v = imperialBranch feetValue"
    by (auto simp: parseCell_def split: option.splits)
  from imperial_match_value [OF f] obtain g1
    where 1: "feetValue 1 = Some g1" "list_all isDigit g1"
    and 2: "feetValue 2 = None \<or> (\<exists>g. feetValue 2 = Some g \<and> g \<noteq> [] \<and> list_all isDigit g)"
    and i: "finite_nonneg (imperialBranch feetValue) \<longleftrightarrow>
            captured_digits (feetValue 1) < overflow_threshold \<and>
            captured_digits (feetValue 2) < overflow_threshold" by blast
  from match_caps_length [OF f 1(1)] assms(1) have "length g1 \<le> 308" by simp
  with 1 have F: "captured_digits (feetValue 1) < overflow_threshold"
    by (simp add: captured_digits_def digits_in_range)
  have I: "captured_digits (feetValue 2) < overflow_threshold"
  proof (cases "feetValue 2")
    case None
    then show ?thesis using pow10_power_le [of 0] by (simp add: captured_digits_def)
  next
    case (Some g2)
    with 2 have "list_all isDigit g2" by auto
    moreover from match_caps_length [OF f Some] assms(1) have "length g2 \<le> 308" by simp
    ultimately show ?thesis using Some by (simp add: captured_digits_def digits_in_range)
  qed
  from F I i v show ?thesis by simp
qed

section \<open>Finite and infinite values\<close>

lemma length_trim: "length (trim s) \<le> length s"
proof -
  have "length (dropWhile isWhiteSpace (rev (dropWhile isWhiteSpace s))) \<le>
      length (rev (dropWhile isWhiteSpace s))" by (rule length_dropWhile_le)
  also have "\<dots> \<le> length s" by (simp add: length_dropWhile_le)
  finally show ?thesis by (simp add: trim_def)
qed

lemma firstCellValue_short_finite:
  assumes "firstCellValue cells = Some v" "\<forall>c\<in>set cells. length c \<le> 308"
  shows "finite_nonneg v"
proof -
  from assms(1) obtain markCell others where c: "cells = markCell # others"
    and p: "parseCell (trim markCell) = Inr (Some v)"
    by (cases cells) (auto simp: firstCellValue_def split: sum.splits)
  from c assms(2) length_trim [of markCell] have "length (trim markCell) \<le> 308" by simp
  then show ?thesis using p by (rule parseCell_short_finite)
qed

lemma scan_short_finite:
  assumes "w \<in> set (scan t)" "\<forall>cells\<in>set t. \<forall>c\<in>set cells. length c \<le> 308"
  shows "finite_nonneg w"
proof -
  from assms(1) obtain cells where "cells \<in> set (drop 1 t)" "firstCellValue cells = Some w"
    by (auto simp: scan_def List.map_filter_def)
  moreover from this(1) have "cells \<in> set t" by (rule in_set_dropD)
  ultimately show ?thesis using assms(2) by (auto intro: firstCellValue_short_finite)
qed

text \<open>
  C4, amended.  For every cell text, a value that is pushed is never NaN and never
  negative, and the handling of a cell never throws.  Whenever the metric pattern matches,
  the number written by the captured digits, separator and digits is converted and pushed:
  a metric match is never treated as no match, and the imperial pattern is tried only when
  the metric pattern does not match.  The value pushed is finite exactly when the numbers
  written by the captured digits are below the threshold \<open>2^1024 - 2^970\<close> (about
  \<open>1.797e308\<close>) from which binary64 rounds to infinity, and it is positive infinity
  otherwise: for the metric branch the captured decimal number, for the imperial branch
  the feet and the inches.  In particular every value from a cell text of at most 308 code
  units is finite.  The same holds for every value of every column that \<open>getColumns\<close>
  returns.
\<close>

theorem emitted_values_nonneg_not_NaN:
  "(parseCell s = Inr (Some v) \<longrightarrow>
      nonneg_or_inf v \<and> \<not> isNaN v \<and> (length s \<le> 308 \<longrightarrow> finite_nonneg v)) \<and>
   (\<forall>e. parseCell s \<noteq> Inl e) \<and>
   (match s METRES_REGEX = Some meterValue \<longrightarrow>
      (\<exists>g. meterValue 1 = Some g \<and> 0 \<le> decimal_value g \<and>
           parseCell s = metricBranch meterValue \<and>
           metricBranch meterValue = Inr (Some (round_double (decimal_value g))) \<and>
           \<not> isNaN (round_double (decimal_value g)) \<and>
           (finite_nonneg (round_double (decimal_value g)) \<longleftrightarrow>
              decimal_value g < overflow_threshold) \<and>
           (round_double (decimal_value g) = PosInfinity \<longleftrightarrow>
              overflow_threshold \<le> decimal_value g))) \<and>
   (match s METRES_REGEX = None \<and> match s FEET_REGEX = Some feetValue \<longrightarrow>
      parseCell s = Inr (Some (imperialBranch feetValue)) \<and>
      (finite_nonneg (imperialBranch feetValue) \<longleftrightarrow>
         captured_digits (feetValue 1) < overflow_threshold \<and>
         captured_digits (feetValue 2) < overflow_threshold) \<and>
      (imperialBranch feetValue = PosInfinity \<longleftrightarrow>
         overflow_threshold \<le> captured_digits (feetValue 1) \<or>
         overflow_threshold \<le> captured_digits (feetValue 2))) \<and>
   (getColumns p = Inr columns \<longrightarrow>
      (\<forall>c\<in>set columns. \<forall>w\<in>set (values c). nonneg_or_inf w \<and> \<not> isNaN w)) \<and>
   (ts \<noteq> [] \<and> (\<forall>t\<in>set ts. \<forall>cells\<in>set t. \<forall>c\<in>set cells. length c \<le> 308) \<longrightarrow>
      (\<exists>cs. getColumns (Document ts) = Inr cs \<and>
            (\<forall>c\<in>set cs. \<forall>w\<in>set (values c). finite_nonneg w)))"
proof -
  have 1: "nonneg_or_inf v \<and> \<not> isNaN v \<and> (length s \<le> 308 \<longrightarrow> finite_nonneg v)"
    if "parseCell s = Inr (Some v)"
    using that parseCell_result [of s] parseCell_short_finite [of s v]
    by (auto simp: isNaN_def dest: nonneg_or_inf_not_NaN)
  have 2: "\<forall>e. parseCell s \<noteq> Inl e" using parseCell_result [of s] by auto
  have 3: "\<exists>g. meterValue 1 = Some g \<and> 0 \<le> decimal_value g \<and>
           parseCell s = metricBranch meterValue \<and>
           metricBranch meterValue = Inr (Some (round_double (decimal_value g))) \<and>
           \<not> isNaN (round_double (decimal_value g)) \<and>
           (finite_nonneg (round_double (decimal_value g)) \<longleftrightarrow>
              decimal_value g < overflow_threshold) \<and>
           (round_double (decimal_value g) = PosInfinity \<longleftrightarrow>
              overflow_threshold \<le> decimal_value g)"
    if m: "match s METRES_REGEX = Some meterValue"
  proof -
    from metric_match_value [OF m] obtain g where g: "meterValue 1 = Some g"
      "0 \<le> decimal_value g"
      "metricBranch meterValue = Inr (Some (round_double (decimal_value g)))"
      "parseCell s = Inr (Some (round_double (decimal_value g)))" by blast
    from g(2) have "nonneg_or_inf (round_double (decimal_value g))" by (rule nonneg_or_inf_round)
    then have "\<not> isNaN (round_double (decimal_value g))"
      by (auto simp: isNaN_def dest: nonneg_or_inf_not_NaN)
    with g round_double_finite_iff [OF g(2)] show ?thesis by auto
  qed
  have 4: "parseCell s = Inr (Some (imperialBranch feetValue)) \<and>
      (finite_nonneg (imperialBranch feetValue) \<longleftrightarrow>
         captured_digits (feetValue 1) < overflow_threshold \<and>
         captured_digits (feetValue 2) < overflow_threshold) \<and>
      (imperialBranch feetValue = PosInfinity \<longleftrightarrow>
         overflow_threshold \<le> captured_digits (feetValue 1) \<or>
         overflow_threshold \<le> captured_digits (feetValue 2))"
    if "match s METRES_REGEX = None \<and> match s FEET_REGEX = Some feetValue"
    using that imperial_match_value [of s feetValue] by (simp add: parseCell_def)
  have 5: "\<forall>c\<in>set columns. \<forall>w\<in>set (values c). nonneg_or_inf w \<and> \<not> isNaN w"
    if g: "getColumns p = Inr columns"
  proof -
    from g obtain ts where "p = Document ts" "ts \<noteq> []"
      by (cases p) (auto simp: getColumns_def getTables_def split: if_splits)
    with g getColumns_Document [of ts] have "columns =
        map (\<lambda>t. \<lparr>header = ascii ''Height'', values = scan t\<rparr>) (filter (\<lambda>t. scan t \<noteq> []) ts)"
      by simp
    then show ?thesis
      by (auto simp: isNaN_def dest: scan_nonneg nonneg_or_inf_not_NaN)
  qed
  have 6: "\<exists>cs. getColumns (Document ts) = Inr cs \<and>
            (\<forall>c\<in>set cs. \<forall>w\<in>set (values c). finite_nonneg w)"
    if "ts \<noteq> [] \<and> (\<forall>t\<in>set ts. \<forall>cells\<in>set t. \<forall>c\<in>set cells. length c \<le> 308)"
    using that getColumns_Document [of ts] by (auto intro: scan_short_finite)
  from 1 2 3 4 5 6 show ?thesis by blast
qed

theorem emitted_values_nonneg_not_NaN_witness:
  "parseCell (ascii ''1.85 m'') = Inr (Some (Finite (4165829655317709 / 2251799813685248))) \<and>
   finite_nonneg (Finite (4165829655317709 / 2251799813685248)) \<and>
   \<not> isNaN (Finite (4165829655317709 / 2251799813685248)) \<and>
   match (ascii ''1.85 m'') METRES_REGEX = Some [1 \<mapsto> ascii ''1.85''] \<and>
   decimal_value (ascii ''1.85'') = 185 / 100 \<and>
   decimal_value (ascii ''1.85'') < overflow_threshold \<and>
   finite_nonneg (round_double (decimal_value (ascii ''1.85''))) \<and>
   match (ascii ''6 ft 1 in'') METRES_REGEX = None \<and>
   match (ascii ''6 ft 1 in'') FEET_REGEX = Some [1 \<mapsto> ascii ''6'', 2 \<mapsto> ascii ''1''] \<and>
   captured_digits (Some (ascii ''6'')) = 6 \<and> captured_digits (Some (ascii ''1'')) = 1 \<and>
   finite_nonneg (imperialBranch [1 \<mapsto> ascii ''6'', 2 \<mapsto> ascii ''1'']) \<and>
   getColumns (Document [[[ascii ''Header''], [ascii ''1.85 m'']]]) =
     Inr [\<lparr>header = ascii ''Height'', values = [Finite (4165829655317709 / 2251799813685248)]\<rparr>]"
proof -
  have m: "match (ascii ''1.85 m'') METRES_REGEX = Some [1 \<mapsto> ascii ''1.85'']"
    by (simp add: METRES_REGEX_def char_defs)
  have d: "decimal_value (ascii ''1.85'') = 185 / 100"
    by (simp add: decimal_value_def char_defs digits_value_def pow10_def)
  have t: "(185 / 100 :: rat) < overflow_threshold" "(6::rat) < overflow_threshold"
    "(1::rat) < overflow_threshold"
    by (simp_all add: overflow_threshold_def pow2_def)
  have fm: "match (ascii ''6 ft 1 in'') METRES_REGEX = None"
    by (simp add: METRES_REGEX_def char_defs)
  have ff: "match (ascii ''6 ft 1 in'') FEET_REGEX = Some [1 \<mapsto> ascii ''6'', 2 \<mapsto> ascii ''1'']"
    by (simp add: FEET_REGEX_def char_defs)
  have c: "captured_digits (Some (ascii ''6'')) = 6" "captured_digits (Some (ascii ''1'')) = 1"
    by (simp_all add: captured_digits_def char_defs digits_value_def)
  have g: "getColumns (Document [[[ascii ''Header''], [ascii ''1.85 m'']]]) =
     Inr [\<lparr>header = ascii ''Height'', values = [Finite (4165829655317709 / 2251799813685248)]\<rparr>]"
    by (simp add: getColumns_def getTables_def extractColumnData_def trim_examples cell_185)
  have l: "length (ascii ''1.85 m'') \<le> 308" by (simp add: ascii_def)
  have dt: "decimal_value (ascii ''1.85'') < overflow_threshold" unfolding d by (rule t(1))
  note metric = emitted_values_nonneg_not_NaN [of "ascii ''1.85 m''"
      "Finite (4165829655317709 / 2251799813685248)" "[1 \<mapsto> ascii ''1.85'']"]
  from mp [OF metric [THEN conjunct1] cell_185] l
  have a: "finite_nonneg (Finite (4165829655317709 / 2251799813685248))"
    "\<not> isNaN (Finite (4165829655317709 / 2251799813685248))"
    by simp_all
  from mp [OF metric [THEN conjunct2, THEN conjunct2, THEN conjunct1] m]
  obtain g where og: "[1 \<mapsto> ascii ''1.85''] (1::nat) = Some g"
    "finite_nonneg (round_double (decimal_value g)) \<longleftrightarrow> decimal_value g < overflow_threshold"
    by (elim exE conjE) blast
  from og(1) have "g = ascii ''1.85''" by simp
  with og(2) dt have r: "finite_nonneg (round_double (decimal_value (ascii ''1.85'')))" by simp
  note imperial = emitted_values_nonneg_not_NaN [of "ascii ''6 ft 1 in''" _
      _ "[1 \<mapsto> ascii ''6'', 2 \<mapsto> ascii ''1'']"]
  have c': "captured_digits ([1 \<mapsto> ascii ''6'', 2 \<mapsto> ascii ''1''] (1::nat)) < overflow_threshold"
    "captured_digits ([1 \<mapsto> ascii ''6'', 2 \<mapsto> ascii ''1''] (2::nat)) < overflow_threshold"
    using c t(2,3) by simp_all
  from mp [OF imperial [THEN conjunct2, THEN conjunct2, THEN conjunct2, THEN conjunct1]
      conjI [OF fm ff]] c'
  have b: "finite_nonneg (imperialBranch [1 \<mapsto> ascii ''6'', 2 \<mapsto> ascii ''1''])"
    by (simp only: simp_thms)
  from a r b cell_185 m d dt fm ff c g show ?thesis by - (intro conjI; assumption)
qed

section \<open>The leftmost match of the metric pattern\<close>

lemma rd_3: "round_double 3 = Finite 3"
  using round_double_cert [of 1 3 "3 * 2 ^ 51"] by (simp add: pow2_def)

lemma cell_3m_100miles: "parseCell (ascii ''3 m 100 miles'') = Inr (Some (Finite 3))"
  using parseCell_metric_digits [of "[51]" "[32]" "[]" "ascii '' 100 miles''"] rd_3
  by (simp add: char_defs digits_value_def)

lemma parseFloat_100: "parseFloat (ascii ''100'') = Finite 100"
  using parseFloat_digits [of "ascii ''100''"] rd_100
  by (simp add: char_defs digits_value_def)

lemma rd_12: "round_double 12 = Finite 12"
  using round_double_cert [of 3 12 "12 * 2 ^ 49"] by (simp add: pow2_def)

lemma cell_12m: "parseCell (ascii ''12 m'') = Inr (Some (Finite 12))"
  using parseCell_metric_digits [of "ascii ''12''" "[32]" "[]" "[]"] rd_12
  by (simp add: char_defs digits_value_def)

lemma parseFloat_2: "parseFloat (ascii ''2'') = Finite 2"
  using parseFloat_digits [of "ascii ''2''"] rd_2
  by (simp add: char_defs digits_value_def)

text \<open>
  C10, as stated, fails where the digits before the \<open>m\<close> are not where the leftmost match
  begins.  The text \<open>"3 m 100 miles"\<close> contains the digits \<open>100\<close>, a space and an \<open>m\<close>, and
  the value pushed is 3, not 100; the text \<open>"12 m"\<close> contains the digit \<open>2\<close>, a space and
  an \<open>m\<close>, and the value pushed is 12, not 2.
\<close>

theorem metric_value_is_not_of_those_digits:
  "ascii ''3 m 100 miles'' = ascii ''3 m '' @ ascii ''100'' @ ascii '' '' @ ascii ''m'' @ ascii ''iles'' \<and>
   parseFloat (ascii ''100'') = Finite 100 \<and>
   parseCell (ascii ''3 m 100 miles'') = Inr (Some (Finite 3)) \<and>
   ascii ''12 m'' = ascii ''1'' @ ascii ''2'' @ ascii '' '' @ ascii ''m'' @ [] \<and>
   parseFloat (ascii ''2'') = Finite 2 \<and>
   parseCell (ascii ''12 m'') = Inr (Some (Finite 12))"
  using parseFloat_100 cell_3m_100miles parseFloat_2 cell_12m by (simp add: ascii_def)

text \<open>
  C10, amended.  The metric marker is any \<open>m\<close>, with no word boundary and no anchoring.
  For every text that contains digits, any white space and then an \<open>m\<close>, whatever stands
  before and after (the \<open>m\<close> may begin \<open>miles\<close>, \<open>min\<close> or \<open>mm\<close>), the metric pattern
  matches and the metric branch pushes a value: the number captured by the leftmost match,
  which begins no later than these digits.  The text splits into what stands before the
  match, the captured digits with an optional separator and more digits, white space, an
  \<open>m\<close> and the rest; the pattern matches at no earlier position; the value pushed is the
  captured decimal number, rounded to binary64.  When no digit stands before the digits in
  the text, the value pushed is the number these digits denote: the cell \<open>"100 miles"\<close>
  contributes the value 100 to the Height column.
\<close>

theorem metric_marker_is_any_m:
  assumes "ds \<noteq> []" "list_all isDigit ds" "list_all isWhiteSpace ws"
  shows "match (pre @ ds @ ws @ ascii ''m'' @ post) METRES_REGEX \<noteq> None \<and>
         (\<exists>before g sp after d1 d2.
            pre @ ds @ ws @ ascii ''m'' @ post = before @ g @ sp @ ascii ''m'' @ after \<and>
            length before \<le> length pre \<and>
            (\<forall>k<length before.
               run METRES_REGEX (Map.empty, drop k (pre @ ds @ ws @ ascii ''m'' @ post)) = []) \<and>
            list_all isWhiteSpace sp \<and>
            d1 \<noteq> [] \<and> list_all isDigit d1 \<and> list_all isDigit d2 \<and>
            (g = d1 \<or> g = d1 @ ascii ''.'' @ d2 \<or> g = d1 @ ascii '','' @ d2) \<and>
            match (pre @ ds @ ws @ ascii ''m'' @ post) METRES_REGEX = Some [1 \<mapsto> g] \<and>
            parseCell (pre @ ds @ ws @ ascii ''m'' @ post) =
              Inr (Some (round_double (decimal_value g)))) \<and>
         (list_all (\<lambda>c. \<not> isDigit c) pre \<longrightarrow>
            parseCell (pre @ ds @ ws @ ascii ''m'' @ post) = Inr (Some (parseFloat ds)) \<and>
            parseFloat ds = round_double (of_int (digits_value ds)))"
proof -
  let ?s = "pre @ ds @ ws @ ascii ''m'' @ post"
  have s: "?s = pre @ ds @ [] @ [] @ ws @ 109 # post" by (simp add: ascii_def)
  from metric_head [OF assms(1,2) _ _ assms(3), of "[]" "[]" Map.empty post]
  have h: "run METRES_REGEX (Map.empty, ds @ [] @ [] @ ws @ 109 # post) \<noteq> []" by auto
  then have 1: "match ?s METRES_REGEX \<noteq> None" unfolding s by (rule match_found)
  then obtain meterValue where c: "match ?s METRES_REGEX = Some meterValue" by auto
  from metric_match_value [OF c] obtain before g sp after
    where d: "?s = before @ g @ sp @ ascii ''m'' @ after" "list_all isWhiteSpace sp"
      and g: "g \<in> lang (Seq (Plus Digit) (Seq (Opt (Atom (OneOf ''.,''))) (Star Digit)))"
      and l: "\<forall>k<length before. run METRES_REGEX (Map.empty, drop k ?s) = []"
      and v: "meterValue 1 = Some g" "parseCell ?s = Inr (Some (round_double (decimal_value g)))"
    by blast
  have b: "length before \<le> length pre"
  proof (rule ccontr)
    assume "\<not> length before \<le> length pre"
    then have "length pre < length before" by simp
    with l have "run METRES_REGEX (Map.empty, drop (length pre) ?s) = []" by blast
    moreover have "drop (length pre) ?s = ds @ ws @ ascii ''m'' @ post" by simp
    ultimately have "run METRES_REGEX (Map.empty, ds @ ws @ ascii ''m'' @ post) = []"
      by (simp only:)
    with h show False by (simp add: ascii_def)
  qed
  from metric_group_shape [OF g] obtain d1 d2
    where sh: "d1 \<noteq> []" "list_all isDigit d1" "list_all isDigit d2"
      "g = d1 \<or> g = d1 @ 46 # d2 \<or> g = d1 @ 44 # d2" by blast
  then have sh': "g = d1 \<or> g = d1 @ ascii ''.'' @ d2 \<or> g = d1 @ ascii '','' @ d2"
    by (simp add: ascii_def)
  have mv: "meterValue = [1 \<mapsto> g]"
  proof
    fix i
    from match_Some [OF c] obtain pre' t rest
      where r: "(meterValue, rest) \<in> set (run METRES_REGEX (Map.empty, t))" by blast
    show "meterValue i = [1 \<mapsto> g] i"
    proof (cases "i = 1")
      case True
      with v(1) show ?thesis by simp
    next
      case False
      with run_caps [OF r, of i] show ?thesis by (auto simp: METRES_REGEX_def)
    qed
  qed
  from d b l sh(1-3) sh' c mv v(2)
  have 2: "\<exists>before g sp after d1 d2.
            ?s = before @ g @ sp @ ascii ''m'' @ after \<and>
            length before \<le> length pre \<and>
            (\<forall>k<length before. run METRES_REGEX (Map.empty, drop k ?s) = []) \<and>
            list_all isWhiteSpace sp \<and>
            d1 \<noteq> [] \<and> list_all isDigit d1 \<and> list_all isDigit d2 \<and>
            (g = d1 \<or> g = d1 @ ascii ''.'' @ d2 \<or> g = d1 @ ascii '','' @ d2) \<and>
            match ?s METRES_REGEX = Some [1 \<mapsto> g] \<and>
            parseCell ?s = Inr (Some (round_double (decimal_value g)))"
    by blast
  have 3: "parseCell ?s = Inr (Some (parseFloat ds)) \<and>
      parseFloat ds = round_double (of_int (digits_value ds))"
    if "list_all (\<lambda>c. \<not> isDigit c) pre"
    using parseCell_metric_digits [OF assms that, of post] parseFloat_digits [OF assms(1,2)]
    by (simp add: ascii_def)
  from 1 2 3 show ?thesis by blast
qed

theorem metric_marker_is_any_m_witness:
  "parseCell (ascii ''100 miles'') = Inr (Some (Finite 100)) \<and>
   parseCell (ascii ''90 min'') = Inr (Some (parseFloat (ascii ''90''))) \<and>
   parseCell (ascii ''5 mm'') = Inr (Some (parseFloat (ascii ''5''))) \<and>
   parseFloat (ascii ''90'') = round_double 90 \<and>
   parseFloat (ascii ''5'') = round_double 5 \<and>
   match (ascii ''Route 66: 100 miles'') METRES_REGEX = Some [1 \<mapsto> ascii ''100''] \<and>
   parseCell (ascii ''Route 66: 100 miles'') = Inr (Some (Finite 100)) \<and>
   extractColumnData [[ascii ''Header''], [ascii ''100 miles'']] =
     Inr [\<lparr>header = ascii ''Height'', values = [Finite 100]\<rparr>]"
proof -
  have e: "extractColumnData [[ascii ''Header''], [ascii ''100 miles'']] =
     Inr [\<lparr>header = ascii ''Height'', values = [Finite 100]\<rparr>]"
    using rd_100_cell by (simp add: extractColumnData_def trim_def char_defs)
  have w: "list_all isWhiteSpace (ascii '' '')" "list_all isDigit (ascii ''90'')"
    "list_all isDigit (ascii ''5'')" "ascii ''90'' \<noteq> []" "ascii ''5'' \<noteq> []"
    "list_all (\<lambda>c. \<not> isDigit c) []"
    by (simp_all add: char_defs)
  from metric_marker_is_any_m [OF w(4) w(2) w(1), of "[]" "ascii ''in''",
      THEN conjunct2, THEN conjunct2, THEN mp, OF w(6)]
  have a: "parseCell (ascii ''90 min'') = Inr (Some (parseFloat (ascii ''90'')))"
    "parseFloat (ascii ''90'') = round_double 90"
    by (simp_all add: ascii_def digits_value_def)
  from metric_marker_is_any_m [OF w(5) w(3) w(1), of "[]" "ascii ''m''",
      THEN conjunct2, THEN conjunct2, THEN mp, OF w(6)]
  have b: "parseCell (ascii ''5 mm'') = Inr (Some (parseFloat (ascii ''5'')))"
    "parseFloat (ascii ''5'') = round_double 5"
    by (simp_all add: ascii_def digits_value_def)
  have m: "match (ascii ''Route 66: 100 miles'') METRES_REGEX = Some [1 \<mapsto> ascii ''100'']"
    by (simp add: METRES_REGEX_def char_defs)
  have "metricBranch [1 \<mapsto> ascii ''100''] = Inr (Some (Finite 100))"
    using parseFloat_100 by (simp add: metricBranch_def isNaN_def char_defs)
  with m have r: "parseCell (ascii ''Route 66: 100 miles'') = Inr (Some (Finite 100))"
    by (simp add: parseCell_def)
  from rd_100_cell a b m r e show ?thesis by - (intro conjI; assumption)
qed

end
